theory Spec2Isabelle
  imports Complex_Main
begin

section \<open>JavaScript numbers: binary64 arithmetic and binary32 storage\<close>

text \<open>
  A JavaScript number is an IEEE 754 binary64 value, and every arithmetic operation returns
  the exact result rounded to the nearest binary64 value, ties to even. A Float32Array
  rounds what is stored into it to the nearest binary32 value in the same way. Finite
  numbers are modelled by the reals they denote; NaN, the infinities and the sign of zero are
  not modelled, so a result beyond the largest finite value is outside the model.

  \<open>round_half_even\<close> rounds a real to the nearest integer, ties to even.
  \<open>float_round p emin\<close> rounds to p significant bits, with \<open>2 powr emin\<close> the spacing
  of the subnormal values: the value is scaled by the spacing of its binade, rounded to an
  integer, and scaled back.
\<close>

definition round_half_even :: "real \<Rightarrow> int" where
  "round_half_even y =
     (let n = \<lfloor>y\<rfloor>; r = y - of_int n
      in if r < 1 / 2 then n
         else if 1 / 2 < r then n + 1
         else if even n then n else n + 1)"

definition binade :: "real \<Rightarrow> int" where
  "binade x = \<lfloor>log 2 \<bar>x\<bar>\<rfloor>"

definition ulp_exponent :: "nat \<Rightarrow> int \<Rightarrow> real \<Rightarrow> int" where
  "ulp_exponent p emin x = max (binade x - int p + 1) emin"

definition float_round :: "nat \<Rightarrow> int \<Rightarrow> real \<Rightarrow> real" where
  "float_round p emin x =
     (if x = 0 then 0
      else of_int (round_half_even (x / 2 powr of_int (ulp_exponent p emin x)))
             * 2 powr of_int (ulp_exponent p emin x))"

text \<open>The values with at most p significant bits and an exponent of at least emin.\<close>

definition representable :: "nat \<Rightarrow> int \<Rightarrow> real \<Rightarrow> bool" where
  "representable p emin y = (\<exists>m a. \<bar>m\<bar> < 2 ^ p \<and> emin \<le> a \<and> y = of_int m * 2 powr of_int a)"

text \<open>binary64: 53 significant bits, subnormal spacing 2 powr -1074.\<close>

definition f64 :: "real \<Rightarrow> real" where
  "f64 x = float_round 53 (- 1074) x"

text \<open>binary32 (Math.fround, and every store into a Float32Array): 24 bits, 2 powr -149.\<close>

definition f32 :: "real \<Rightarrow> real" where
  "f32 x = float_round 24 (- 149) x"

text \<open>
  The four operators on numbers, and Math.sqrt, which is the correctly rounded square root
  of IEEE 754. No division of the modelled code has a zero divisor.
\<close>

definition add64 :: "real \<Rightarrow> real \<Rightarrow> real" where "add64 a b = f64 (a + b)"
definition sub64 :: "real \<Rightarrow> real \<Rightarrow> real" where "sub64 a b = f64 (a - b)"
definition mul64 :: "real \<Rightarrow> real \<Rightarrow> real" where "mul64 a b = f64 (a * b)"
definition div64 :: "real \<Rightarrow> real \<Rightarrow> real" where "div64 a b = f64 (a / b)"
definition sqrt64 :: "real \<Rightarrow> real" where "sqrt64 a = f64 (sqrt a)"

text \<open>The values of a Float32Array are binary32 values.\<close>

definition float32_array :: "real list \<Rightarrow> bool" where
  "float32_array xs = list_all (\<lambda>x. f32 x = x) xs"

text \<open>
  The other functions of Math that the source calls are left to the host by the language
  standard (their results are implementation-approximated), so they are a parameter of the
  model: one record of functions on numbers. \<open>rounded_math\<close> is the host whose functions
  are correctly rounded.
\<close>

record js_math =
  m_sin :: "real \<Rightarrow> real"
  m_cos :: "real \<Rightarrow> real"
  m_acos :: "real \<Rightarrow> real"
  m_cbrt :: "real \<Rightarrow> real"
  m_pow :: "real \<Rightarrow> real \<Rightarrow> real"

definition rounded_math :: js_math where
  "rounded_math =
     \<lparr>m_sin = (\<lambda>x. f64 (sin x)),
      m_cos = (\<lambda>x. f64 (cos x)),
      m_acos = (\<lambda>x. f64 (arccos x)),
      m_cbrt = (\<lambda>x. f64 (root 3 x)),
      m_pow = (\<lambda>x y. f64 (if y = 3 then x ^ 3 else x powr y))\<rparr>"

text \<open>Math.PI is the binary64 value nearest to pi.\<close>

definition PI :: real where "PI = f64 pi"

section \<open>gesture-logic.js: landmarks and the instantaneous classifier\<close>

text \<open>
  A landmark is an object with numeric fields x and y and an optional field z: MediaPipe
  gives 3D points, and the source guards every read of z with \<^verbatim>\<open>p.z || 0\<close>, so
  a 2D point is a landmark whose z is absent.
\<close>

record landmark =
  lm_x :: real
  lm_y :: real
  lm_z :: "real option"

text \<open>The classifier returns 'open', 'fist' or null; null is \<open>None\<close>.\<close>

datatype hand_state = Open | Fist

text \<open>
  Reading \<^verbatim>\<open>landmarks[i]\<close> past the end of a JavaScript array yields undefined, and
  the property read that follows (\<^verbatim>\<open>.x\<close>) throws a TypeError.
\<close>

datatype js_error = TypeError

definition landmark_at :: "landmark list \<Rightarrow> nat \<Rightarrow> js_error + landmark" where
  "landmark_at landmarks i =
     (if i < length landmarks then Inr (landmarks ! i) else Inl TypeError)"

definition WRIST :: nat where "WRIST = 0"
definition THUMB_TIP :: nat where "THUMB_TIP = 4"
definition INDEX_MCP :: nat where "INDEX_MCP = 5"
definition INDEX_TIP :: nat where "INDEX_TIP = 8"
definition MIDDLE_MCP :: nat where "MIDDLE_MCP = 9"
definition MIDDLE_TIP :: nat where "MIDDLE_TIP = 12"
definition RING_MCP :: nat where "RING_MCP = 13"
definition RING_TIP :: nat where "RING_TIP = 16"
definition PINKY_MCP :: nat where "PINKY_MCP = 17"
definition PINKY_TIP :: nat where "PINKY_TIP = 20"

definition FINGERTIPS :: "nat list" where
  "FINGERTIPS = [THUMB_TIP, INDEX_TIP, MIDDLE_TIP, RING_TIP, PINKY_TIP]"

definition MCP_JOINTS :: "nat list" where
  "MCP_JOINTS = [INDEX_MCP, MIDDLE_MCP, RING_MCP, PINKY_MCP]"

text \<open>\<^verbatim>\<open>p.z || 0\<close>: an absent z reads as 0 (and a z equal to 0 stays 0).\<close>

definition z_or_0 :: "landmark \<Rightarrow> real" where
  "z_or_0 p = (case lm_z p of None \<Rightarrow> 0 | Some v \<Rightarrow> v)"

definition distance :: "landmark \<Rightarrow> landmark \<Rightarrow> real" where
  "distance p1 p2 =
     (let dx = sub64 (lm_x p1) (lm_x p2);
          dy = sub64 (lm_y p1) (lm_y p2);
          dz = sub64 (z_or_0 p1) (z_or_0 p2)
      in sqrt64 (add64 (add64 (mul64 dx dx) (mul64 dy dy)) (mul64 dz dz)))"

text \<open>The loop of getPalmCenter over MCP_JOINTS, with the three running sums.\<close>

fun palm_sums :: "landmark list \<Rightarrow> nat list \<Rightarrow> real \<times> real \<times> real \<Rightarrow> js_error + real \<times> real \<times> real" where
  "palm_sums landmarks [] acc = Inr acc"
| "palm_sums landmarks (idx # rest) (sumX, sumY, sumZ) =
     (case landmark_at landmarks idx of
        Inl e \<Rightarrow> Inl e
      | Inr p \<Rightarrow>
          palm_sums landmarks rest
            (add64 sumX (lm_x p), add64 sumY (lm_y p), add64 sumZ (z_or_0 p)))"

definition getPalmCenter :: "landmark list \<Rightarrow> js_error + landmark" where
  "getPalmCenter landmarks =
     (case landmark_at landmarks WRIST of
        Inl e \<Rightarrow> Inl e
      | Inr wrist \<Rightarrow>
          (case palm_sums landmarks MCP_JOINTS (lm_x wrist, lm_y wrist, z_or_0 wrist) of
             Inl e \<Rightarrow> Inl e
           | Inr (sumX, sumY, sumZ) \<Rightarrow>
               (let count = real (length MCP_JOINTS + 1)
                in Inr \<lparr>lm_x = div64 sumX count, lm_y = div64 sumY count,
                        lm_z = Some (div64 sumZ count)\<rparr>)))"

definition getHandSize :: "landmark list \<Rightarrow> js_error + real" where
  "getHandSize landmarks =
     (case landmark_at landmarks WRIST of
        Inl e \<Rightarrow> Inl e
      | Inr wrist \<Rightarrow>
          (case landmark_at landmarks MIDDLE_MCP of
             Inl e \<Rightarrow> Inl e
           | Inr mcp \<Rightarrow> Inr (distance wrist mcp)))"

text \<open>
  The loop of detectHandState over FINGERTIPS, with the counter extendedFingers. The
  literal 1.3 is the binary64 value nearest to 13/10.
\<close>

fun count_extended :: "landmark list \<Rightarrow> landmark \<Rightarrow> real \<Rightarrow> nat list \<Rightarrow> nat \<Rightarrow> js_error + nat" where
  "count_extended landmarks palmCenter handSize [] extendedFingers = Inr extendedFingers"
| "count_extended landmarks palmCenter handSize (tipIdx # rest) extendedFingers =
     (case landmark_at landmarks tipIdx of
        Inl e \<Rightarrow> Inl e
      | Inr tip \<Rightarrow>
          (let dist = distance tip palmCenter;
               normalizedDist = div64 dist handSize
           in count_extended landmarks palmCenter handSize rest
                (if normalizedDist > f64 1.3 then extendedFingers + 1 else extendedFingers)))"

text \<open>
  The argument is \<open>None\<close> when the caller passes null or undefined
  (\<^verbatim>\<open>!landmarks\<close>); an array, even an empty one, is truthy.
\<close>

definition detectHandState :: "landmark list option \<Rightarrow> js_error + hand_state option" where
  "detectHandState arg =
     (case arg of
        None \<Rightarrow> Inr None
      | Some landmarks \<Rightarrow>
          if length landmarks < 21 then Inr None
          else
            (case getPalmCenter landmarks of
               Inl e \<Rightarrow> Inl e
             | Inr palmCenter \<Rightarrow>
                 (case getHandSize landmarks of
                    Inl e \<Rightarrow> Inl e
                  | Inr handSize \<Rightarrow>
                      if handSize < f64 0.01 then Inr None
                      else
                        (case count_extended landmarks palmCenter handSize FINGERTIPS 0 of
                           Inl e \<Rightarrow> Inl e
                         | Inr extendedFingers \<Rightarrow>
                             if extendedFingers \<ge> 4 then Inr (Some Open)
                             else if extendedFingers \<le> 1 then Inr (Some Fist)
                             else Inr None))))"

section \<open>gesture-logic.js: the debouncing detector\<close>

text \<open>
  The class GestureDetector: its three mutable fields and the threshold given to the
  constructor (a JavaScript number; the only caller passes 5).
\<close>

record GestureDetector =
  debounceFrames :: int
  currentState :: "hand_state option"
  pendingState :: "hand_state option"
  pendingCount :: int

definition new_GestureDetector :: "int \<Rightarrow> GestureDetector" where
  "new_GestureDetector n =
     \<lparr>debounceFrames = n, currentState = None, pendingState = None, pendingCount = 0\<rparr>"

text \<open>
  Lines 183 to 217 of update, from the raw label on: the value returned (the new state
  when it changes, else null) and the detector after the call.
\<close>

definition update_raw :: "hand_state option \<Rightarrow> GestureDetector \<Rightarrow> hand_state option \<times> GestureDetector" where
  "update_raw rawState d =
     (if rawState = None then (None, d\<lparr>pendingState := None, pendingCount := 0\<rparr>)
      else if rawState = currentState d then (None, d\<lparr>pendingState := None, pendingCount := 0\<rparr>)
      else if rawState \<noteq> pendingState d then (None, d\<lparr>pendingState := rawState, pendingCount := 1\<rparr>)
      else
        (let d1 = d\<lparr>pendingCount := pendingCount d + 1\<rparr>
         in if pendingCount d1 \<ge> debounceFrames d1
            then (let newState = pendingState d1
                  in (newState, d1\<lparr>currentState := newState, pendingState := None, pendingCount := 0\<rparr>))
            else (None, d1)))"

definition update :: "landmark list option \<Rightarrow> GestureDetector \<Rightarrow> js_error + hand_state option \<times> GestureDetector" where
  "update landmarks d =
     (case detectHandState landmarks of
        Inl e \<Rightarrow> Inl e
      | Inr rawState \<Rightarrow> Inr (update_raw rawState d))"

definition getState :: "GestureDetector \<Rightarrow> hand_state option" where
  "getState d = currentState d"

definition reset :: "GestureDetector \<Rightarrow> GestureDetector" where
  "reset d = d\<lparr>currentState := None, pendingState := None, pendingCount := 0\<rparr>"

text \<open>
  Feeding a sequence of raw labels, one update per frame: the values returned, frame by
  frame, and the detector at the end.
\<close>

fun feed :: "GestureDetector \<Rightarrow> hand_state option list \<Rightarrow> hand_state option list \<times> GestureDetector" where
  "feed d [] = ([], d)"
| "feed d (l # ls) =
     (case update_raw l d of
        (out, d') \<Rightarrow> (case feed d' ls of (outs, d'') \<Rightarrow> (out # outs, d'')))"

section \<open>particles.js: constants and the random source\<close>

text \<open>A decimal literal of the source is the binary64 value nearest to it.\<close>

definition PARTICLE_COUNT :: nat where "PARTICLE_COUNT = 50000"
definition SPACE_RADIUS :: real where "SPACE_RADIUS = 15"
definition EASING :: real where "EASING = f64 0.025"
definition ROTATION_SENSITIVITY :: real where "ROTATION_SENSITIVITY = 1.5"
definition ROTATION_EASING :: real where "ROTATION_EASING = f64 0.08"
definition HEARTBEAT_AMPLITUDE :: real where "HEARTBEAT_AMPLITUDE = f64 0.05"
definition HEARTBEAT_SPEED :: real where "HEARTBEAT_SPEED = f64 1.2"
definition HEART_SIZE :: real where "HEART_SIZE = 3.0"
definition HEART_SCALE_X :: real where "HEART_SCALE_X = f64 1.3"
definition HEART_SCALE_Y :: real where "HEART_SCALE_Y = f64 1.1"
definition HEART_SCALE_Z :: real where "HEART_SCALE_Z = f64 0.9"
definition CENTER_LINE_AVOID :: real where "CENTER_LINE_AVOID = f64 0.15"

text \<open>
  Math.random() is modelled by the sequence of values it returns: the k-th call of a run
  returns \<open>rnd k\<close>, and every function that draws samples takes the index of the next
  call and returns the index after its last one. Its contract is \<open>0 \<le> rnd k < 1\<close>.
\<close>

type_synonym random_source = "nat \<Rightarrow> real"

definition unit_samples :: "random_source \<Rightarrow> bool" where
  "unit_samples rnd = (\<forall>k. 0 \<le> rnd k \<and> rnd k < 1)"

section \<open>particles.js: generateHeartPoints\<close>

text \<open>
  The two branches of the loop body that compute a candidate (x, y, z), lines 84 to 138,
  each with the index of the next random call. Operators associate to the left, as in the
  source.
\<close>

definition heart_outline_y :: "js_math \<Rightarrow> real \<Rightarrow> real" where
  "heart_outline_y M u =
     sub64 (sub64 (sub64 (mul64 13 (m_cos M u))
                         (mul64 5 (m_cos M (mul64 2 u))))
                  (mul64 2 (m_cos M (mul64 3 u))))
           (m_cos M (mul64 4 u))"

definition surface_candidate :: "js_math \<Rightarrow> random_source \<Rightarrow> nat \<Rightarrow> (real \<times> real \<times> real) \<times> nat" where
  "surface_candidate M rnd k =
     (let u = mul64 (mul64 (rnd k) PI) 2;
          v = mul64 (rnd (k + 1)) PI;
          sinU = m_sin M u; cosU = m_cos M u; sinV = m_sin M v; cosV = m_cos M v;
          heartX = mul64 16 (m_pow M sinU 3);
          heartY = heart_outline_y M u;
          nx = div64 heartX 16;
          ny = div64 heartY 17;
          heartRadius = sqrt64 (add64 (mul64 nx nx) (mul64 ny ny));
          zFactor = cosV;
          xyFactor = sinV;
          x0 = add64 (mul64 (mul64 nx xyFactor) (f64 0.9)) (mul64 nx (f64 0.1));
          y0 = add64 (mul64 (mul64 ny xyFactor) (f64 0.9)) (mul64 ny (f64 0.1));
          z0 = mul64 (mul64 zFactor heartRadius) (f64 0.7);
          surfaceNoise = f64 0.05;
          x = add64 x0 (mul64 (sub64 (rnd (k + 2)) 0.5) surfaceNoise);
          y = add64 y0 (mul64 (sub64 (rnd (k + 3)) 0.5) surfaceNoise);
          z = add64 z0 (mul64 (mul64 (sub64 (rnd (k + 4)) 0.5) surfaceNoise) 0.5)
      in ((x, y, z), k + 5))"

definition interior_candidate :: "js_math \<Rightarrow> random_source \<Rightarrow> nat \<Rightarrow> (real \<times> real \<times> real) \<times> nat" where
  "interior_candidate M rnd k =
     (let u = mul64 (mul64 (rnd k) PI) 2;
          fillFactor = mul64 (m_pow M (rnd (k + 1)) 0.5) (f64 0.85);
          heartX = mul64 16 (m_pow M (m_sin M u) 3);
          heartY = heart_outline_y M u;
          nx = mul64 (div64 heartX 16) fillFactor;
          ny = mul64 (div64 heartY 17) fillFactor;
          heartRadius = sqrt64 (add64 (mul64 nx nx) (mul64 ny ny));
          x = nx;
          y = ny;
          z = mul64 (mul64 (sub64 (rnd (k + 2)) 0.5) heartRadius) (f64 1.2)
      in ((x, y, z), k + 3))"

definition heart_candidate :: "js_math \<Rightarrow> random_source \<Rightarrow> nat \<Rightarrow> nat \<Rightarrow> nat \<Rightarrow> (real \<times> real \<times> real) \<times> nat" where
  "heart_candidate M rnd surfaceCount generated k =
     (if generated < surfaceCount then surface_candidate M rnd k else interior_candidate M rnd k)"

text \<open>The test of lines 141 to 143 on a candidate.\<close>

definition in_center_void :: "real \<Rightarrow> real \<Rightarrow> bool" where
  "in_center_void x z =
     (let distFromCenterX = \<bar>x\<bar>; distFromCenterZ = \<bar>z\<bar>
      in distFromCenterX < CENTER_LINE_AVOID \<and> distFromCenterZ < CENTER_LINE_AVOID)"

text \<open>
  One pass through the body of the while loop. The state is the index of the next random
  call, the counter generated and the array points, a Float32Array. A candidate in the
  center void draws one more sample and, when it exceeds 0.08, the pass ends at
  \<^verbatim>\<open>continue\<close> with nothing written.
\<close>

definition heart_iteration :: "js_math \<Rightarrow> random_source \<Rightarrow> nat \<Rightarrow> nat \<times> nat \<times> real list \<Rightarrow> nat \<times> nat \<times> real list" where
  "heart_iteration M rnd surfaceCount st =
     (case st of (k, generated, points) \<Rightarrow>
        (case heart_candidate M rnd surfaceCount generated k of ((x, y, z), k1) \<Rightarrow>
           if in_center_void x z \<and> rnd k1 > f64 0.08 then (k1 + 1, generated, points)
           else
             (let k2 = (if in_center_void x z then k1 + 1 else k1);
                  finalX = mul64 (mul64 x HEART_SCALE_X) HEART_SIZE;
                  finalY = mul64 (mul64 y HEART_SCALE_Y) HEART_SIZE;
                  finalZ = mul64 (mul64 z HEART_SCALE_Z) HEART_SIZE
              in (k2, generated + 1,
                  points[generated * 3 := f32 finalX,
                         generated * 3 + 1 := f32 finalY,
                         generated * 3 + 2 := f32 finalZ]))))"

text \<open>
  The while loop has no bound on its passes, so the model takes fuel: the number of passes
  it may make. \<open>None\<close> is a run that has not left the loop when the fuel is spent.
\<close>

fun heart_loop :: "nat \<Rightarrow> js_math \<Rightarrow> random_source \<Rightarrow> nat \<Rightarrow> nat \<Rightarrow> nat \<times> nat \<times> real list \<Rightarrow> (real list \<times> nat) option" where
  "heart_loop 0 M rnd count surfaceCount (k, generated, points) =
     (if generated < count then None else Some (points, k))"
| "heart_loop (Suc fuel) M rnd count surfaceCount (k, generated, points) =
     (if generated < count
      then heart_loop fuel M rnd count surfaceCount (heart_iteration M rnd surfaceCount (k, generated, points))
      else Some (points, k))"

text \<open>
  A new Float32Array holds zeros. surfaceCount is Math.floor of the binary64 product
  count * 0.7. The result is the array and the index of the next random call.
\<close>

definition generateHeartPoints :: "nat \<Rightarrow> js_math \<Rightarrow> random_source \<Rightarrow> nat \<Rightarrow> nat \<Rightarrow> (real list \<times> nat) option" where
  "generateHeartPoints fuel M rnd k count =
     (let points = replicate (count * 3) 0;
          surfaceCount = nat \<lfloor>mul64 (real count) (f64 0.7)\<rfloor>
      in heart_loop fuel M rnd count surfaceCount (k, 0, points))"

section \<open>particles.js: generateSpacePoints\<close>

fun space_loop :: "js_math \<Rightarrow> random_source \<Rightarrow> real \<Rightarrow> nat list \<Rightarrow> nat \<times> real list \<Rightarrow> nat \<times> real list" where
  "space_loop M rnd radius [] st = st"
| "space_loop M rnd radius (i # rest) (k, points) =
     (let theta = mul64 (mul64 (rnd k) PI) 2;
          phi = m_acos M (sub64 (mul64 2 (rnd (k + 1))) 1);
          r = mul64 radius (m_cbrt M (rnd (k + 2)))
      in space_loop M rnd radius rest
           (k + 3,
            points[i * 3 := f32 (mul64 (mul64 r (m_sin M phi)) (m_cos M theta)),
                   i * 3 + 1 := f32 (mul64 (mul64 r (m_sin M phi)) (m_sin M theta)),
                   i * 3 + 2 := f32 (mul64 r (m_cos M phi))]))"

definition generateSpacePoints :: "js_math \<Rightarrow> random_source \<Rightarrow> nat \<Rightarrow> nat \<Rightarrow> real \<Rightarrow> real list \<times> nat" where
  "generateSpacePoints M rnd k count radius =
     (case space_loop M rnd radius [0..<count] (k, replicate (count * 3) 0) of
        (k', points) \<Rightarrow> (points, k'))"

section \<open>particles.js: the engine state\<close>

text \<open>
  The module-level variables of particles.js that the exported functions and the animation
  tick read or write. The Three.js scene, camera, renderer and geometry, and the colour
  and size attributes, belong to the rendering collaborator and are left out; of the
  shader material only the two uniforms written here are kept, and of the particle
  container only its rotation. \<open>None\<close> is a variable that is still null.
\<close>

datatype jsval = JString string | JNumber real | JBool bool | JNull | JUndefined

datatype console_entry = Warn string jsval | Log string jsval

record uniforms =
  u_time :: real
  u_mode :: real

record engine =
  positions :: "real list"
  heartTargets :: "real list"
  spaceTargets :: "real list"
  currentMode :: jsval
  time :: real
  targetRotationX :: real
  targetRotationY :: real
  currentRotationX :: real
  currentRotationY :: real
  particleMaterial :: "uniforms option"
  containerRotation :: "(real \<times> real) option"
  console :: "console_entry list"

text \<open>The values the module starts with, before initParticles (arrays still null).\<close>

definition initial_engine :: engine where
  "initial_engine =
     \<lparr>positions = [], heartTargets = [], spaceTargets = [], currentMode = JString ''space'',
      time = 0, targetRotationX = 0, targetRotationY = 0,
      currentRotationX = 0, currentRotationY = 0,
      particleMaterial = None, containerRotation = None, console = []\<rparr>"

section \<open>particles.js: setMode, getMode, setRotationFromHand\<close>

text \<open>
  setMode takes any JavaScript value; \<^verbatim>\<open>!==\<close> is strict, so only the two strings
  pass the guard. The text of the log message is abridged.
\<close>

definition setMode :: "jsval \<Rightarrow> engine \<Rightarrow> engine" where
  "setMode mode s =
     (if mode \<noteq> JString ''heart'' \<and> mode \<noteq> JString ''space''
      then s\<lparr>console := console s @ [Warn ''Invalid mode:'' mode]\<rparr>
      else
        s\<lparr>currentMode := mode,
          particleMaterial :=
            (case particleMaterial s of
               None \<Rightarrow> None
             | Some u \<Rightarrow> Some (u\<lparr>u_mode := (if mode = JString ''heart'' then 1.0 else 0.0)\<rparr>)),
          console := console s @ [Log ''mode:'' mode]\<rparr>)"

definition getMode :: "engine \<Rightarrow> jsval" where
  "getMode s = currentMode s"

definition setRotationFromHand :: "real \<Rightarrow> real \<Rightarrow> engine \<Rightarrow> engine" where
  "setRotationFromHand normX normY s =
     (let s1 = s\<lparr>targetRotationY := - normX * pi * ROTATION_SENSITIVITY\<rparr>;
          s2 = s1\<lparr>targetRotationX := normY * pi * 0.5 * ROTATION_SENSITIVITY\<rparr>
      in s2\<lparr>targetRotationX := max (- pi * 0.4) (min (pi * 0.4) (targetRotationX s2))\<rparr>)"

section \<open>particles.js: the animation tick\<close>

text \<open>
  The body of the for loop of animate for particle i, lines 471 to 486, on the
  Float32Array posArray: the right-hand side is computed in binary64 and the store rounds it
  to binary32. The typed arrays hold 3 * PARTICLE_COUNT numbers once initParticles has run,
  which is when animate runs, so every index used here is in range.
\<close>

definition ease_particle :: "jsval \<Rightarrow> real \<Rightarrow> real list \<Rightarrow> real list \<Rightarrow> nat \<Rightarrow> real list \<Rightarrow> real list" where
  "ease_particle mode heartbeat heartT spaceT i posArray =
     (let i3 = i * 3;
          targetX = (if mode = JString ''heart'' then mul64 (heartT ! i3) heartbeat else spaceT ! i3);
          targetY = (if mode = JString ''heart'' then mul64 (heartT ! (i3 + 1)) heartbeat
                     else spaceT ! (i3 + 1));
          targetZ = (if mode = JString ''heart'' then mul64 (heartT ! (i3 + 2)) heartbeat
                     else spaceT ! (i3 + 2));
          p1 = posArray[i3 := f32 (add64 (posArray ! i3) (mul64 (sub64 targetX (posArray ! i3)) EASING))];
          p2 = p1[i3 + 1 := f32 (add64 (p1 ! (i3 + 1)) (mul64 (sub64 targetY (p1 ! (i3 + 1))) EASING))]
      in p2[i3 + 2 := f32 (add64 (p2 ! (i3 + 2)) (mul64 (sub64 targetZ (p2 ! (i3 + 2))) EASING))])"

fun ease_loop :: "jsval \<Rightarrow> real \<Rightarrow> real list \<Rightarrow> real list \<Rightarrow> nat list \<Rightarrow> real list \<Rightarrow> real list" where
  "ease_loop mode heartbeat heartT spaceT [] posArray = posArray"
| "ease_loop mode heartbeat heartT spaceT (i # rest) posArray =
     ease_loop mode heartbeat heartT spaceT rest (ease_particle mode heartbeat heartT spaceT i posArray)"

text \<open>One call of animate, up to the call of the renderer.\<close>

definition animate :: "js_math \<Rightarrow> engine \<Rightarrow> engine" where
  "animate M s =
     (let time1 = add64 (time s) (f64 0.016);
          material1 = (case particleMaterial s of
                         None \<Rightarrow> None
                       | Some u \<Rightarrow> Some (u\<lparr>u_time := time1\<rparr>));
          heartbeat = (if currentMode s = JString ''heart''
                       then add64 1 (mul64 HEARTBEAT_AMPLITUDE (m_sin M (mul64 time1 HEARTBEAT_SPEED)))
                       else 1);
          posArray = ease_loop (currentMode s) heartbeat (heartTargets s) (spaceTargets s)
                       [0..<PARTICLE_COUNT] (positions s);
          rotX = add64 (currentRotationX s)
                   (mul64 (sub64 (targetRotationX s) (currentRotationX s)) ROTATION_EASING);
          rotY = add64 (currentRotationY s)
                   (mul64 (sub64 (targetRotationY s) (currentRotationY s)) ROTATION_EASING)
      in s\<lparr>time := time1,
           particleMaterial := material1,
           positions := posArray,
           currentRotationX := rotX,
           currentRotationY := rotY,
           containerRotation :=
             (case containerRotation s of None \<Rightarrow> None | Some r \<Rightarrow> Some (rotX, rotY))\<rparr>)"

section \<open>particles.js: initParticles\<close>

text \<open>
  initParticles generates the two target arrays (the heart first, so the starfield draws
  its samples after the heart's), copies the starfield into the live buffer with
  \<^verbatim>\<open>new Float32Array(spaceTargets)\<close>, creates the container and the material
  (uniforms time 0 and mode 0): this is create_particles, lines 370 to 402. It then starts
  the animation, whose first tick runs inside the call. The samples drawn for colours and
  sizes come after both target arrays and reach nothing modelled here.
\<close>

definition create_particles :: "nat \<Rightarrow> js_math \<Rightarrow> random_source \<Rightarrow> nat \<Rightarrow> engine \<Rightarrow> engine option" where
  "create_particles fuel M rnd k s =
     (case generateHeartPoints fuel M rnd k PARTICLE_COUNT of
        None \<Rightarrow> None
      | Some (heart, k1) \<Rightarrow>
          (case generateSpacePoints M rnd k1 PARTICLE_COUNT SPACE_RADIUS of
             (space, k2) \<Rightarrow>
               Some (s\<lparr>containerRotation := Some (0, 0),
                       heartTargets := heart,
                       spaceTargets := space,
                       positions := space,
                       particleMaterial := Some \<lparr>u_time = 0, u_mode = 0.0\<rparr>\<rparr>)))"

text \<open>
  startAnimation calls animate once; the later ticks are the callbacks that animate
  registers with requestAnimationFrame.
\<close>

definition startAnimation :: "js_math \<Rightarrow> engine \<Rightarrow> engine" where
  "startAnimation M s = animate M s"

definition initParticles :: "nat \<Rightarrow> js_math \<Rightarrow> random_source \<Rightarrow> nat \<Rightarrow> engine \<Rightarrow> engine option" where
  "initParticles fuel M rnd k s =
     (case create_particles fuel M rnd k s of
        None \<Rightarrow> None
      | Some s1 \<Rightarrow> Some (startAnimation M s1))"

section \<open>The classifier as the specification words it\<close>

text \<open>
  A well-formed landmark set is a sequence of 21 points in space. The palm center is the
  mean of the wrist and the four MCP joints, the hand size the Euclidean distance from the
  wrist to the middle MCP, and a fingertip is extended when its Euclidean distance to the
  palm center, divided by the hand size, exceeds 1.3. At least 4 extended fingertips of
  the 5 is Open, at most 1 is Fist, anything else Unknown; a hand size below the epsilon
  0.01 is Unknown. These definitions stand on the three coordinates of the points and on
  binary64 arithmetic alone; they use no function of the classifier above.
\<close>

type_synonym point3 = "real \<times> real \<times> real"

definition landmark3 :: "point3 \<Rightarrow> landmark" where
  "landmark3 p = (case p of (a, b, c) \<Rightarrow> \<lparr>lm_x = a, lm_y = b, lm_z = Some c\<rparr>)"

definition square64 :: "real \<Rightarrow> real" where
  "square64 d = f64 (d * d)"

definition euclidean64 :: "point3 \<Rightarrow> point3 \<Rightarrow> real" where
  "euclidean64 p q =
     (case p of (px, py, pz) \<Rightarrow> case q of (qx, qy, qz) \<Rightarrow>
        f64 (sqrt (f64 (f64 (square64 (f64 (px - qx)) + square64 (f64 (py - qy)))
                        + square64 (f64 (pz - qz))))))"

definition mean5 :: "real \<Rightarrow> real \<Rightarrow> real \<Rightarrow> real \<Rightarrow> real \<Rightarrow> real" where
  "mean5 a b c d e = f64 (f64 (f64 (f64 (f64 (a + b) + c) + d) + e) / 5)"

definition palm_center_spec :: "point3 list \<Rightarrow> point3" where
  "palm_center_spec pts =
     (case pts ! 0 of (wx, wy, wz) \<Rightarrow> case pts ! 5 of (ix, iy, iz) \<Rightarrow>
      case pts ! 9 of (mx, my, mz) \<Rightarrow> case pts ! 13 of (rx, ry, rz) \<Rightarrow>
      case pts ! 17 of (qx, qy, qz) \<Rightarrow>
        (mean5 wx ix mx rx qx, mean5 wy iy my ry qy, mean5 wz iz mz rz qz))"

definition hand_size_spec :: "point3 list \<Rightarrow> real" where
  "hand_size_spec pts = euclidean64 (pts ! 0) (pts ! 9)"

definition normalized_tip_distance :: "point3 list \<Rightarrow> nat \<Rightarrow> real" where
  "normalized_tip_distance pts t =
     f64 (euclidean64 (pts ! t) (palm_center_spec pts) / hand_size_spec pts)"

definition classify_spec :: "point3 list \<Rightarrow> hand_state option" where
  "classify_spec pts =
     (if hand_size_spec pts < f64 0.01 then None
      else
        (let extended = length (filter (\<lambda>t. normalized_tip_distance pts t > f64 1.3) [4, 8, 12, 16, 20])
         in if 4 \<le> extended then Some Open
            else if extended \<le> 1 then Some Fist
            else None))"

text \<open>
  A hand of 21 points in space: the wrist at the origin, the four MCP joints around
  (0, 15, 0), so that the palm center is (0, 15, 0) and the hand size 15, and all five
  fingertips at the point tip. With the tip at (8, 31, 16) the distance from the palm
  center is 24, out of the plane of the palm, and the normalized distance 1.6; with the
  tip at (10, 25, 5) the distance is 15 and the normalized distance 1.
\<close>

definition scenario_hand :: "point3 \<Rightarrow> point3 list" where
  "scenario_hand tip =
     [(0, 0, 0), (0, 0, 0), (0, 0, 0), (0, 0, 0), tip,
      (- 5, 15, 0), (0, 0, 0), (0, 0, 0), tip,
      (0, 15, 0), (0, 0, 0), (0, 0, 0), tip,
      (5, 15, 0), (0, 0, 0), (0, 0, 0), tip,
      (0, 30, 0), (0, 0, 0), (0, 0, 0), tip]"

text \<open>A flat landmark, without z.\<close>

definition flat_point :: "real \<Rightarrow> real \<Rightarrow> landmark" where
  "flat_point a b = \<lparr>lm_x = a, lm_y = b, lm_z = None\<rparr>"

section \<open>Invariants of a run of the detector\<close>

text \<open>
  After the frames ls, with the values outs returned so far: a pending label L with counter c
  stands for the last c frames, which all carried L and returned null, and L is not the
  confirmed state, which has not changed during those frames. The counter stays below the
  larger of the threshold and 2.
\<close>

definition pending_run_ok :: "GestureDetector \<Rightarrow> hand_state option list \<Rightarrow> hand_state option list \<Rightarrow> GestureDetector \<Rightarrow> bool" where
  "pending_run_ok d0 ls outs d =
     (debounceFrames d = debounceFrames d0 \<and> length outs = length ls \<and>
      (\<forall>L. pendingState d = Some L \<longrightarrow>
         (\<exists>c. pendingCount d = int c \<and> 1 \<le> c \<and> int c < max (debounceFrames d0) 2 \<and> c \<le> length ls
            \<and> (\<forall>j. length ls - c \<le> j \<and> j < length ls \<longrightarrow> ls ! j = Some L \<and> outs ! j = None)
            \<and> currentState d \<noteq> Some L
            \<and> currentState (snd (feed d0 (take (length ls - c) ls))) = currentState d)))"

text \<open>
  Every emission of L, at frame i, ends a run of m frames carrying L, where m is the larger
  of the threshold and 2; no other frame of the run emits, and L is not the confirmed state
  when the run starts.
\<close>

definition emissions_ok :: "GestureDetector \<Rightarrow> hand_state option list \<Rightarrow> hand_state option list \<Rightarrow> bool" where
  "emissions_ok d0 ls outs =
     (\<forall>i L. i < length ls \<and> outs ! i = Some L \<longrightarrow>
        (\<exists>m. int m = max (debounceFrames d0) 2 \<and> m \<le> i + 1
           \<and> (\<forall>j. i + 1 - m \<le> j \<and> j \<le> i \<longrightarrow> ls ! j = Some L)
           \<and> (\<forall>j. i + 1 - m \<le> j \<and> j < i \<longrightarrow> outs ! j = None)
           \<and> currentState (snd (feed d0 (take (i + 1 - m) ls))) \<noteq> Some L))"


section \<open>The target of a coordinate in one tick\<close>

text \<open>
  What the loop body of animate eases coordinate j toward: the heart target times the
  heartbeat in the mode 'heart', the starfield target in any other mode.
\<close>

definition coord_target :: "jsval \<Rightarrow> real \<Rightarrow> real list \<Rightarrow> real list \<Rightarrow> nat \<Rightarrow> real" where
  "coord_target mode heartbeat heartT spaceT j =
     (if mode = JString ''heart'' then f64 (heartT ! j * heartbeat) else spaceT ! j)"

text \<open>
  The same for a whole tick from the state s; the heartbeat is taken at the time the tick
  has just advanced to.
\<close>

definition tick_target :: "js_math \<Rightarrow> engine \<Rightarrow> nat \<Rightarrow> real" where
  "tick_target M s j =
     (if currentMode s = JString ''heart''
      then f64 (heartTargets s ! j
                * f64 (1 + f64 (HEARTBEAT_AMPLITUDE
                                * m_sin M (f64 (f64 (time s + f64 0.016) * HEARTBEAT_SPEED)))))
      else spaceTargets s ! j)"

text \<open>
  The value that one tick stores for a coordinate at p with the target t: p plus EASING
  times (t - p), each operation rounded to binary64, and the sum rounded to binary32 by the
  store.
\<close>

definition eased :: "real \<Rightarrow> real \<Rightarrow> real" where
  "eased p t = f32 (f64 (p + f64 (f64 (t - p) * EASING)))"

text \<open>
  The three arrays are the Float32Arrays of 3 * PARTICLE_COUNT entries that initParticles
  makes them, so that every index the tick uses is in range.
\<close>

definition buffers_allocated :: "engine \<Rightarrow> bool" where
  "buffers_allocated s =
     (length (positions s) = 3 * PARTICLE_COUNT \<and> float32_array (positions s)
      \<and> length (heartTargets s) = 3 * PARTICLE_COUNT \<and> float32_array (heartTargets s)
      \<and> length (spaceTargets s) = 3 * PARTICLE_COUNT \<and> float32_array (spaceTargets s))"

text \<open>
  Two states in the mode 'space'. In the first every live coordinate is 1 and every
  starfield target 0 (the heart targets are 2). In the second every live coordinate is
  1 - 2^-20, a binary32 value, and every starfield target is 1.
\<close>

definition demo_engine :: engine where
  "demo_engine =
     initial_engine\<lparr>positions := replicate (3 * PARTICLE_COUNT) 1,
                     heartTargets := replicate (3 * PARTICLE_COUNT) 2,
                     spaceTargets := replicate (3 * PARTICLE_COUNT) 0\<rparr>"

definition stalled_engine :: engine where
  "stalled_engine =
     initial_engine\<lparr>positions := replicate (3 * PARTICLE_COUNT) (1 - 1 / 2 ^ 20),
                     heartTargets := replicate (3 * PARTICLE_COUNT) 0,
                     spaceTargets := replicate (3 * PARTICLE_COUNT) 1\<rparr>"

section \<open>Points of the generated arrays\<close>

text \<open>
  The i-th point of a flat array of coordinates, its Euclidean norm (over the reals), and
  the point that one pass of the loop of generateSpacePoints stores from the three samples
  drawn at index k.
\<close>

definition point_at :: "real list \<Rightarrow> nat \<Rightarrow> real \<times> real \<times> real" where
  "point_at points i = (points ! (i * 3), points ! (i * 3 + 1), points ! (i * 3 + 2))"

definition norm3 :: "real \<times> real \<times> real \<Rightarrow> real" where
  "norm3 p = (case p of (a, b, c) \<Rightarrow> sqrt (a * a + b * b + c * c))"

definition star_point :: "js_math \<Rightarrow> random_source \<Rightarrow> real \<Rightarrow> nat \<Rightarrow> real \<times> real \<times> real" where
  "star_point M rnd radius k =
     (let theta = f64 (f64 (rnd k * PI) * 2);
          phi = m_acos M (f64 (f64 (2 * rnd (k + 1)) - 1));
          r = f64 (radius * m_cbrt M (rnd (k + 2)))
      in (f32 (f64 (f64 (r * m_sin M phi) * m_cos M theta)),
          f32 (f64 (f64 (r * m_sin M phi) * m_sin M theta)),
          f32 (f64 (r * m_cos M phi))))"

text \<open>
  A host is accurate when its sine and cosine are within 2^-50 of the true ones and its
  cube root maps the unit interval into itself.
\<close>

definition accurate_math :: "js_math \<Rightarrow> bool" where
  "accurate_math M =
     ((\<forall>x. \<bar>m_sin M x - sin x\<bar> \<le> 1 / 2 ^ 50)
      \<and> (\<forall>x. \<bar>m_cos M x - cos x\<bar> \<le> 1 / 2 ^ 50)
      \<and> (\<forall>u. 0 \<le> u \<and> u \<le> 1 \<longrightarrow> 0 \<le> m_cbrt M u \<and> m_cbrt M u \<le> 1))"

text \<open>
  Sample sequences within the contract of Math.random(): all 0; all 1/16; and one whose
  first three samples are 0, (1 + 659707021405 / 2^40) / 2 and 1 - 2^-30, all binary64
  values, followed by zeros.
\<close>

definition zero_samples :: random_source where
  "zero_samples k = 0"

definition sixteenth_samples :: random_source where
  "sixteenth_samples k = 1 / 16"

definition edge_samples :: random_source where
  "edge_samples k =
     (if k = 1 then (1 + 659707021405 / 2 ^ 40) / 2
      else if k = 2 then 1 - 1 / 2 ^ 30
      else 0)"

text \<open>
  The filter of lines 141 to 145 lets a candidate through, with k1 the index of the sample
  it would draw: a candidate in the center void only when that sample is at most 0.08.
\<close>

definition passes_center_void :: "random_source \<Rightarrow> real \<times> real \<times> real \<Rightarrow> nat \<Rightarrow> bool" where
  "passes_center_void rnd c k1 =
     (case c of (x, y, z) \<Rightarrow> in_center_void x z \<longrightarrow> rnd k1 \<le> f64 0.08)"

text \<open>The scaling of lines 148 to 150, and the rounding of the store.\<close>

definition heart_scaled :: "real \<times> real \<times> real \<Rightarrow> real \<times> real \<times> real" where
  "heart_scaled c =
     (case c of (x, y, z) \<Rightarrow>
        (f32 (f64 (f64 (x * HEART_SCALE_X) * HEART_SIZE)),
         f32 (f64 (f64 (y * HEART_SCALE_Y) * HEART_SIZE)),
         f32 (f64 (f64 (z * HEART_SCALE_Z) * HEART_SIZE))))"

text \<open>
  Point i of the array is a candidate of the loop that the filter let through: for some
  index k of the sample sequence, it is the scaled candidate computed from the samples at
  k, by the surface branch when i is below surfaceCount and by the interior branch
  otherwise, and that candidate passes the filter.
\<close>

definition accepted_candidate :: "js_math \<Rightarrow> random_source \<Rightarrow> nat \<Rightarrow> real list \<Rightarrow> nat \<Rightarrow> bool" where
  "accepted_candidate M rnd surfaceCount points i =
     (\<exists>k. passes_center_void rnd (fst (heart_candidate M rnd surfaceCount i k))
              (snd (heart_candidate M rnd surfaceCount i k))
          \<and> point_at points i = heart_scaled (fst (heart_candidate M rnd surfaceCount i k)))"

text \<open>
  The counter generated after n passes through the body of the loop of
  generateHeartPoints count, started at the sample index k.
\<close>

definition heart_accepted :: "js_math \<Rightarrow> random_source \<Rightarrow> nat \<Rightarrow> nat \<Rightarrow> nat \<Rightarrow> nat" where
  "heart_accepted M rnd count k n =
     fst (snd ((heart_iteration M rnd (nat \<lfloor>mul64 (real count) (f64 0.7)\<rfloor>) ^^ n)
                 (k, 0, replicate (count * 3) 0)))"

text \<open>
  A pass of the loop draws at most six samples, the last of them the one the filter
  compares with 0.08. So among eleven consecutive samples that are all at most 0.08 there
  is a whole pass, and that pass writes its candidate. A sample sequence is fair when such
  a run of eleven samples starts beyond every index: the sequences that are not fair have
  probability 0 under any source whose samples are independent and at most 0.08 with a
  positive probability.
\<close>

definition accepting_run :: "random_source \<Rightarrow> nat \<Rightarrow> bool" where
  "accepting_run rnd w = (\<forall>j < 11. rnd (w + j) \<le> f64 0.08)"

definition fair_samples :: "random_source \<Rightarrow> bool" where
  "fair_samples rnd = (\<forall>n. \<exists>w \<ge> n. accepting_run rnd w)"

section \<open>Properties of the rounding\<close>

lemma round_half_even_spec:
  "\<bar>y - of_int (round_half_even y)\<bar> < 1 / 2
   \<or> (\<bar>y - of_int (round_half_even y)\<bar> = 1 / 2 \<and> even (round_half_even y))"
proof -
  define n where "n = \<lfloor>y\<rfloor>"
  define r where "r = y - of_int n"
  have r: "0 \<le> r" "r < 1" unfolding r_def n_def by linarith+
  have y: "y = of_int n + r" by (simp add: r_def)
  have R: "round_half_even y = (if r < 1 / 2 then n else if 1 / 2 < r then n + 1
                                 else if even n then n else n + 1)"
    by (simp add: round_half_even_def Let_def n_def r_def)
  consider "r < 1 / 2" | "1 / 2 < r" | "r = 1 / 2" "even n" | "r = 1 / 2" "odd n"
    by fastforce
  then show ?thesis
  proof cases
    case 1
    then have "round_half_even y = n" by (simp add: R)
    then show ?thesis using 1 r by (simp add: r_def abs_if)
  next
    case 2
    then have "round_half_even y = n + 1" by (simp add: R)
    then show ?thesis using 2 r by (simp add: r_def abs_if)
  next
    case 3
    then have "round_half_even y = n" by (simp add: R)
    then show ?thesis using 3 by (simp add: r_def abs_if)
  next
    case 4
    then have "round_half_even y = n + 1" by (simp add: R)
    then show ?thesis using 4 by (simp add: r_def abs_if)
  qed
qed

lemma round_half_even_eqI:
  assumes "\<bar>y - of_int n\<bar> < 1 / 2 \<or> (\<bar>y - of_int n\<bar> = 1 / 2 \<and> even n)"
  shows "round_half_even y = n"
proof -
  let ?m = "round_half_even y"
  from round_half_even_spec[of y]
  have m: "\<bar>y - of_int ?m\<bar> < 1 / 2 \<or> (\<bar>y - of_int ?m\<bar> = 1 / 2 \<and> even ?m)" .
  have "\<bar>of_int ?m - of_int n :: real\<bar> \<le> 1" using m assms by (auto simp: abs_if split: if_splits)
  then have d: "\<bar>?m - n\<bar> \<le> 1" by (metis of_int_diff of_int_abs of_int_le_1_iff)
  show ?thesis
  proof (rule ccontr)
    assume ne: "?m \<noteq> n"
    then have "\<bar>?m - n\<bar> = 1" using d by linarith
    then have one: "\<bar>of_int ?m - of_int n :: real\<bar> = 1"
      by (metis of_int_diff of_int_abs of_int_1)
    then have "\<bar>y - of_int ?m\<bar> = 1 / 2" "\<bar>y - of_int n\<bar> = 1 / 2"
      using m assms by (auto simp: abs_if split: if_splits)
    then have "even ?m" "even n" using m assms by auto
    then have "even (?m - n)" by simp
    moreover have "?m - n = 1 \<or> ?m - n = - 1" using \<open>\<bar>?m - n\<bar> = 1\<close> by linarith
    ultimately show False by presburger
  qed
qed

lemma round_half_even_int [simp]: "round_half_even (of_int n) = n"
  by (rule round_half_even_eqI) simp

lemma round_half_even_minus: "round_half_even (- y) = - round_half_even y"
  using round_half_even_spec[of y] by (intro round_half_even_eqI) (auto simp: abs_if)

lemma round_half_even_mono:
  assumes "x \<le> y" shows "round_half_even x \<le> round_half_even y"
proof (rule ccontr)
  assume "\<not> ?thesis"
  then have lt: "round_half_even y + 1 \<le> round_half_even x" by simp
  then have "of_int (round_half_even y) + (1::real) \<le> of_int (round_half_even x)"
    by (metis of_int_1 of_int_add of_int_le_iff)
  moreover have "\<bar>x - of_int (round_half_even x)\<bar> \<le> 1 / 2" "\<bar>y - of_int (round_half_even y)\<bar> \<le> 1 / 2"
    using round_half_even_spec[of x] round_half_even_spec[of y] by auto
  ultimately have eq: "of_int (round_half_even x) = of_int (round_half_even y) + (1::real)"
    and "\<bar>x - of_int (round_half_even x)\<bar> = 1 / 2" "\<bar>y - of_int (round_half_even y)\<bar> = 1 / 2"
    using assms by (auto simp: abs_if split: if_splits)
  then have "even (round_half_even x)" "even (round_half_even y)"
    using round_half_even_spec[of x] round_half_even_spec[of y] by auto
  moreover have "round_half_even x = round_half_even y + 1"
    using eq by (metis of_int_1 of_int_add of_int_eq_iff)
  ultimately show False by simp
qed

lemma round_half_even_error: "\<bar>of_int (round_half_even y) - y\<bar> \<le> 1 / 2"
  using round_half_even_spec[of y] by (auto simp: abs_if split: if_splits)

lemma round_half_even_nonneg: "0 \<le> y \<Longrightarrow> 0 \<le> round_half_even y"
  using round_half_even_mono[of 0 y] round_half_even_int[of 0] by simp

lemma round_half_even_le_double:
  assumes "0 \<le> y" shows "of_int (round_half_even y) \<le> 2 * y"
proof (cases "y < 1 / 2")
  case True
  then have "round_half_even y = 0" using assms by (intro round_half_even_eqI) (auto simp: abs_if)
  then show ?thesis using assms by simp
next
  case False
  then show ?thesis using round_half_even_error[of y] by (auto simp: abs_if split: if_splits)
qed

lemma two_powr_int_nonneg: "0 \<le> k \<Longrightarrow> 2 powr real_of_int k = of_int (2 ^ nat k)"
  by (simp add: powr_realpow[symmetric])

lemma binade_bounds:
  assumes "x \<noteq> 0"
  shows "2 powr of_int (binade x) \<le> \<bar>x\<bar>" and "\<bar>x\<bar> < 2 powr (of_int (binade x) + 1)"
proof -
  have pos: "0 < \<bar>x\<bar>" using assms by simp
  have "of_int (binade x) \<le> log 2 \<bar>x\<bar>" by (simp add: binade_def)
  then show "2 powr of_int (binade x) \<le> \<bar>x\<bar>"
    using pos by (simp add: le_log_iff)
  have "log 2 \<bar>x\<bar> < of_int (binade x) + 1" by (simp add: binade_def)
  then show "\<bar>x\<bar> < 2 powr (of_int (binade x) + 1)"
    using pos by (simp add: log_less_iff)
qed

lemma binade_eqI:
  assumes "2 powr of_int e \<le> \<bar>x\<bar>" and "\<bar>x\<bar> < 2 powr (of_int e + 1)"
  shows "binade x = e"
proof -
  have pos: "0 < \<bar>x\<bar>" using assms(1) by (smt (verit) powr_gt_zero)
  have "of_int e \<le> log 2 \<bar>x\<bar>" using assms(1) pos by (simp add: le_log_iff)
  moreover have "log 2 \<bar>x\<bar> < of_int e + 1" using assms(2) pos by (simp add: log_less_iff)
  ultimately show ?thesis unfolding binade_def by linarith
qed

lemma binade_mono:
  assumes "x \<noteq> 0" and "\<bar>x\<bar> \<le> \<bar>y\<bar>"
  shows "binade x \<le> binade y"
proof -
  have "log 2 \<bar>x\<bar> \<le> log 2 \<bar>y\<bar>" using assms by simp
  then show ?thesis unfolding binade_def by (rule floor_mono)
qed

lemma binade_minus [simp]: "binade (- x) = binade x"
  by (simp add: binade_def)

lemma ulp_exponent_minus [simp]: "ulp_exponent p emin (- x) = ulp_exponent p emin x"
  by (simp add: ulp_exponent_def)

lemma float_round_zero [simp]: "float_round p emin 0 = 0"
  by (simp add: float_round_def)

lemma float_round_minus: "float_round p emin (- x) = - float_round p emin x"
  by (simp add: float_round_def round_half_even_minus)

lemma float_round_nonneg:
  assumes "0 \<le> x" shows "0 \<le> float_round p emin x"
proof (cases "x = 0")
  case True then show ?thesis by simp
next
  case False
  have "0 \<le> x / 2 powr of_int (ulp_exponent p emin x)" using assms by simp
  then have "0 \<le> round_half_even (x / 2 powr of_int (ulp_exponent p emin x))"
    by (rule round_half_even_nonneg)
  then show ?thesis using False by (simp add: float_round_def)
qed

lemma float_round_le_double:
  assumes "0 \<le> x" shows "float_round p emin x \<le> 2 * x"
proof (cases "x = 0")
  case True then show ?thesis by simp
next
  case False
  let ?u = "2 powr of_int (ulp_exponent p emin x) :: real"
  have u: "0 < ?u" by simp
  have "of_int (round_half_even (x / ?u)) \<le> 2 * (x / ?u)"
    using assms by (intro round_half_even_le_double) simp
  then have "of_int (round_half_even (x / ?u)) \<le> (2 * x) / ?u" by simp
  then have "of_int (round_half_even (x / ?u)) * ?u \<le> 2 * x"
    using u by (simp only: pos_le_divide_eq)
  then show ?thesis using False by (simp add: float_round_def)
qed

text \<open>Integer multiples of the spacing bound the rounded value.\<close>

lemma float_round_ge_multiple:
  assumes "x \<noteq> 0" and "of_int n * 2 powr of_int (ulp_exponent p emin x) \<le> x"
  shows "of_int n * 2 powr of_int (ulp_exponent p emin x) \<le> float_round p emin x"
proof -
  let ?u = "2 powr of_int (ulp_exponent p emin x) :: real"
  have u: "0 < ?u" by simp
  have "of_int n \<le> x / ?u" using assms(2) u by (simp add: pos_le_divide_eq)
  then have "n \<le> round_half_even (x / ?u)"
    using round_half_even_mono[of "of_int n" "x / ?u"] by simp
  then have "of_int n * ?u \<le> of_int (round_half_even (x / ?u)) * ?u"
    using u by (simp add: mult_right_mono)
  then show ?thesis using assms(1) by (simp add: float_round_def)
qed

lemma float_round_le_multiple:
  assumes "x \<noteq> 0" and "x \<le> of_int n * 2 powr of_int (ulp_exponent p emin x)"
  shows "float_round p emin x \<le> of_int n * 2 powr of_int (ulp_exponent p emin x)"
proof -
  let ?u = "2 powr of_int (ulp_exponent p emin x) :: real"
  have u: "0 < ?u" by simp
  have "x / ?u \<le> of_int n" using assms(2) u by (simp add: pos_divide_le_eq)
  then have "round_half_even (x / ?u) \<le> n"
    using round_half_even_mono[of "x / ?u" "of_int n"] by simp
  then have "of_int (round_half_even (x / ?u)) * ?u \<le> of_int n * ?u"
    using u by (simp add: mult_right_mono)
  then show ?thesis using assms(1) by (simp add: float_round_def)
qed

lemma float_round_exact:
  assumes m: "\<bar>m\<bar> < 2 ^ p" and a: "emin \<le> a"
  shows "float_round p emin (of_int m * 2 powr of_int a) = of_int m * 2 powr of_int a"
proof (cases "m = 0")
  case True then show ?thesis by simp
next
  case False
  define x :: real where "x = of_int m * 2 powr of_int a"
  define e where "e = ulp_exponent p emin x"
  have x0: "x \<noteq> 0" using False by (simp add: x_def)
  have absx: "\<bar>x\<bar> = of_int \<bar>m\<bar> * 2 powr of_int a" by (simp add: x_def abs_mult)
  have "of_int \<bar>m\<bar> < (2::real) ^ p" using m by (metis of_int_less_iff of_int_numeral of_int_power)
  then have "\<bar>x\<bar> < 2 ^ p * 2 powr of_int a" unfolding absx by (simp add: mult_strict_right_mono)
  also have "\<dots> = 2 powr (of_int (int p + a))" by (simp add: powr_add powr_realpow)
  finally have lt: "\<bar>x\<bar> < 2 powr (of_int (int p + a))" .
  have "2 powr of_int (binade x) \<le> \<bar>x\<bar>" using binade_bounds(1)[OF x0] .
  then have "(2::real) powr of_int (binade x) < 2 powr (of_int (int p + a))" using lt by linarith
  then have "binade x < int p + a" by simp
  then have le: "e \<le> a" using a by (simp add: e_def ulp_exponent_def)
  define k where "k = a - e"
  have k: "0 \<le> k" using le by (simp add: k_def)
  have split: "(2::real) powr of_int a = 2 powr of_int k * 2 powr of_int e"
    by (simp add: k_def powr_add[symmetric])
  have "x / 2 powr of_int e = of_int m * 2 powr of_int k"
    unfolding x_def split by simp
  also have "\<dots> = of_int (m * 2 ^ nat k)" using k by (simp add: two_powr_int_nonneg)
  finally have "round_half_even (x / 2 powr of_int e) = m * 2 ^ nat k"
    by (simp only: round_half_even_int)
  then have "float_round p emin x = of_int (m * 2 ^ nat k) * 2 powr of_int e"
    using x0 by (simp add: float_round_def e_def)
  also have "\<dots> = of_int m * (2 powr of_int k * 2 powr of_int e)"
    using k by (simp add: two_powr_int_nonneg)
  also have "\<dots> = x" by (simp add: x_def split)
  finally show ?thesis by (simp add: x_def)
qed

lemma two_powr_split:
  assumes "b \<le> a"
  shows "(2::real) powr of_int a = of_int (2 ^ nat (a - b)) * 2 powr of_int b"
proof -
  define k where "k = a - b"
  have k: "0 \<le> k" using assms by (simp add: k_def)
  have "(2::real) powr of_int a = 2 powr (of_int k + of_int b)" by (simp add: k_def)
  also have "\<dots> = 2 powr of_int k * 2 powr of_int b" by (rule powr_add)
  also have "2 powr of_int k = (of_int (2 ^ nat k) :: real)" using k by (rule two_powr_int_nonneg)
  finally show ?thesis by (simp add: k_def)
qed

lemma float_round_mono_pos:
  assumes p: "1 \<le> p" and x: "0 < x" and xy: "x \<le> y"
  shows "float_round p emin x \<le> float_round p emin y"
proof -
  define ux where "ux = ulp_exponent p emin x"
  define uy where "uy = ulp_exponent p emin y"
  have x0: "x \<noteq> 0" and y0: "y \<noteq> 0" and ypos: "0 < y" using x xy by auto
  have bm: "binade x \<le> binade y" using binade_mono[of x y] x xy by simp
  then have uxy: "ux \<le> uy" by (simp add: ux_def uy_def ulp_exponent_def)
  show ?thesis
  proof (cases "ux = uy")
    case True
    have "x / 2 powr of_int ux \<le> y / 2 powr of_int ux"
      using xy by (simp add: divide_right_mono)
    then have "round_half_even (x / 2 powr of_int ux) \<le> round_half_even (y / 2 powr of_int ux)"
      by (rule round_half_even_mono)
    then have "of_int (round_half_even (x / 2 powr of_int ux)) * 2 powr of_int ux
             \<le> of_int (round_half_even (y / 2 powr of_int ux)) * (2::real) powr of_int ux"
      by (simp add: mult_right_mono)
    then show ?thesis
      using x0 y0 True by (simp add: float_round_def ux_def[symmetric] uy_def[symmetric])
  next
    case False
    then have lt: "ux < uy" using uxy by simp
    have "emin \<le> ux" by (simp add: ux_def ulp_exponent_def)
    then have uy_eq: "uy = binade y - int p + 1"
      using lt by (simp add: uy_def ulp_exponent_def max_def split: if_splits)
    have "binade x - int p + 1 \<le> ux" by (simp add: ux_def ulp_exponent_def)
    then have bx: "binade x < binade y" using lt uy_eq by simp
    \<comment> \<open>lower bound for y\<close>
    have k: "uy \<le> binade y" using p by (simp add: uy_eq)
    have ymult: "(2::real) powr of_int (binade y)
        = of_int (2 ^ nat (binade y - uy)) * 2 powr of_int uy"
      using k by (rule two_powr_split)
    have "2 powr of_int (binade y) \<le> y" using binade_bounds(1)[OF y0] ypos by simp
    then have "of_int (2 ^ nat (binade y - uy)) * 2 powr of_int uy \<le> y"
      using ymult by simp
    then have "of_int (2 ^ nat (binade y - uy)) * 2 powr of_int uy \<le> float_round p emin y"
      unfolding uy_def by (rule float_round_ge_multiple[OF y0])
    then have ylow: "2 powr of_int (binade y) \<le> float_round p emin y" using ymult by simp
    \<comment> \<open>upper bound for x\<close>
    define c where "c = max (binade x + 1) ux"
    have c1: "ux \<le> c" by (simp add: c_def)
    have c2: "c \<le> binade y" using bx lt uy_eq p by (simp add: c_def)
    have xmult: "(2::real) powr of_int c = of_int (2 ^ nat (c - ux)) * 2 powr of_int ux"
      using c1 by (rule two_powr_split)
    have "x < 2 powr (of_int (binade x) + 1)" using binade_bounds(2)[OF x0] x by simp
    also have "\<dots> = 2 powr of_int (binade x + 1)" by simp
    also have "\<dots> \<le> 2 powr of_int c" by (simp add: c_def)
    finally have "x \<le> of_int (2 ^ nat (c - ux)) * 2 powr of_int ux" using xmult by simp
    then have "float_round p emin x \<le> of_int (2 ^ nat (c - ux)) * 2 powr of_int ux"
      unfolding ux_def by (rule float_round_le_multiple[OF x0])
    then have "float_round p emin x \<le> 2 powr of_int c" using xmult by simp
    also have "\<dots> \<le> 2 powr of_int (binade y)" using c2 by simp
    finally show ?thesis using ylow by simp
  qed
qed

lemma float_round_mono:
  assumes p: "1 \<le> p" and xy: "x \<le> y"
  shows "float_round p emin x \<le> float_round p emin y"
proof -
  consider "0 < x" | "x \<le> 0" "0 \<le> y" | "y < 0" by linarith
  then show ?thesis
  proof cases
    case 1
    then show ?thesis using float_round_mono_pos[OF p _ xy] by simp
  next
    case 2
    have "float_round p emin x \<le> 0"
      using float_round_nonneg[of "- x" p emin] 2(1) by (simp add: float_round_minus)
    moreover have "0 \<le> float_round p emin y" using 2(2) by (rule float_round_nonneg)
    ultimately show ?thesis by simp
  next
    case 3
    then have "0 < - y" "- y \<le> - x" using xy by simp_all
    then have "float_round p emin (- y) \<le> float_round p emin (- x)"
      by (rule float_round_mono_pos[OF p])
    then show ?thesis by (simp add: float_round_minus)
  qed
qed

lemma representable_fixed: "representable p emin y \<Longrightarrow> float_round p emin y = y"
  unfolding representable_def using float_round_exact by blast

lemma representable_weaken:
  assumes "representable p emin y" and "p \<le> p'" and "emin' \<le> emin"
  shows "representable p' emin' y"
proof -
  from assms(1) obtain m a where m: "\<bar>m\<bar> < 2 ^ p" "emin \<le> a" "y = of_int m * 2 powr of_int a"
    unfolding representable_def by blast
  have "(2::int) ^ p \<le> 2 ^ p'" using assms(2) by (simp add: power_increasing)
  then have "\<bar>m\<bar> < 2 ^ p'" using m(1) by linarith
  moreover have "emin' \<le> a" using m(2) assms(3) by simp
  ultimately show ?thesis unfolding representable_def using m(3) by blast
qed

lemma float_round_representable:
  assumes p: "1 \<le> p"
  shows "representable p emin (float_round p emin x)"
proof (cases "x = 0")
  case True
  have "representable p emin (of_int 0 * 2 powr of_int emin)"
    unfolding representable_def by (intro exI[of _ 0] exI[of _ emin]) simp
  then show ?thesis using True by simp
next
  case False
  define u where "u = ulp_exponent p emin x"
  define n where "n = round_half_even (x / 2 powr of_int u)"
  have fr: "float_round p emin x = of_int n * 2 powr of_int u"
    using False by (simp add: float_round_def u_def n_def)
  have ue: "emin \<le> u" and ub: "binade x - int p + 1 \<le> u" by (simp_all add: u_def ulp_exponent_def)
  have "\<bar>x\<bar> < 2 powr (of_int (binade x) + 1)" using binade_bounds(2)[OF False] .
  also have "\<dots> = 2 powr of_int (binade x + 1)" by simp
  also have "\<dots> \<le> 2 powr of_int (u + int p)" using ub by simp
  also have "\<dots> = 2 ^ p * 2 powr of_int u" by (simp add: powr_add powr_realpow)
  finally have "\<bar>x\<bar> / 2 powr of_int u < 2 ^ p" by (simp add: pos_divide_less_eq)
  then have b: "\<bar>x / 2 powr of_int u\<bar> < 2 ^ p" by simp
  have "x / 2 powr of_int u \<le> of_int (2 ^ p)" "of_int (- (2 ^ p)) \<le> x / 2 powr of_int u"
    using b by (simp_all add: abs_if split: if_splits)
  then have "n \<le> 2 ^ p" "- (2 ^ p) \<le> n"
    unfolding n_def using round_half_even_mono round_half_even_int by metis+
  then consider "\<bar>n\<bar> < 2 ^ p" | "n = 2 ^ p" | "n = - (2 ^ p)" by linarith
  then show ?thesis
  proof cases
    case 1
    then show ?thesis unfolding fr representable_def using ue by blast
  next
    case 2
    obtain q where q: "p = Suc q" using p by (cases p) auto
    have "of_int n * 2 powr of_int u = of_int (2 ^ q) * (2::real) powr of_int (u + 1)"
      by (simp add: 2 q powr_add)
    moreover have "\<bar>(2::int) ^ q\<bar> < 2 ^ p" by (simp add: q)
    ultimately show ?thesis unfolding fr representable_def using ue
      by (intro exI[of _ "2 ^ q"] exI[of _ "u + 1"]) simp
  next
    case 3
    obtain q where q: "p = Suc q" using p by (cases p) auto
    have "of_int n * 2 powr of_int u = of_int (- (2 ^ q)) * (2::real) powr of_int (u + 1)"
      by (simp add: 3 q powr_add)
    moreover have "\<bar>- ((2::int) ^ q)\<bar> < 2 ^ p" by (simp add: q)
    ultimately show ?thesis unfolding fr representable_def using ue
      by (intro exI[of _ "- (2 ^ q)"] exI[of _ "u + 1"]) simp
  qed
qed

lemma float_round_idem: "1 \<le> p \<Longrightarrow> float_round p emin (float_round p emin x) = float_round p emin x"
  by (rule representable_fixed[OF float_round_representable])

lemma float_round_error:
  assumes p: "1 \<le> p"
  shows "\<bar>float_round p emin x - x\<bar> \<le> \<bar>x\<bar> * 2 powr (- real p) + 2 powr (of_int emin - 1)"
proof (cases "x = 0")
  case True then show ?thesis by simp
next
  case False
  define u where "u = ulp_exponent p emin x"
  define n where "n = round_half_even (x / 2 powr of_int u)"
  have fr: "float_round p emin x = of_int n * 2 powr of_int u"
    using False by (simp add: float_round_def u_def n_def)
  have "\<bar>of_int n - x / 2 powr of_int u\<bar> \<le> 1 / 2"
    unfolding n_def by (rule round_half_even_error)
  then have "\<bar>of_int n - x / 2 powr of_int u\<bar> * 2 powr of_int u \<le> 1 / 2 * 2 powr of_int u"
    by (rule mult_right_mono) simp
  moreover have "\<bar>of_int n - x / 2 powr of_int u\<bar> * 2 powr of_int u
      = \<bar>of_int n * 2 powr of_int u - x\<bar>"
  proof -
    have "\<bar>of_int n - x / 2 powr of_int u\<bar> * 2 powr of_int u
        = \<bar>(of_int n - x / 2 powr of_int u) * 2 powr of_int u\<bar>"
      by (simp add: abs_mult)
    also have "(of_int n - x / 2 powr of_int u) * 2 powr of_int u = of_int n * 2 powr of_int u - x"
      by (simp add: algebra_simps)
    finally show ?thesis .
  qed
  ultimately have err: "\<bar>float_round p emin x - x\<bar> \<le> 2 powr of_int u / 2" by (simp add: fr)
  show ?thesis
  proof (cases "u = emin")
    case True
    have "2 powr of_int u / 2 = (2::real) powr (of_int emin - 1)"
      by (simp add: True powr_diff)
    then show ?thesis using err by (smt (verit) mult_nonneg_nonneg abs_ge_zero powr_ge_zero)
  next
    case False
    then have ueq: "u = binade x - int p + 1"
      by (simp add: u_def ulp_exponent_def max_def split: if_splits)
    have "of_int u = of_int (binade x) + (- real p) + (1::real)" by (simp add: ueq)
    then have "(2::real) powr of_int u = 2 powr of_int (binade x) * 2 powr (- real p) * 2 powr 1"
      by (simp only: powr_add)
    then have "(2::real) powr of_int u / 2 = 2 powr of_int (binade x) * 2 powr (- real p)"
      by simp
    also have "\<dots> \<le> \<bar>x\<bar> * 2 powr (- real p)"
      using binade_bounds(1)[OF \<open>x \<noteq> 0\<close>] by (simp add: mult_right_mono)
    finally show ?thesis using err by (smt (verit) powr_ge_zero)
  qed
qed

lemma f64_mono: "x \<le> y \<Longrightarrow> f64 x \<le> f64 y"
  unfolding f64_def by (rule float_round_mono) simp

lemma f32_mono: "x \<le> y \<Longrightarrow> f32 x \<le> f32 y"
  unfolding f32_def by (rule float_round_mono) simp

lemma f64_zero [simp]: "f64 0 = 0" by (simp add: f64_def)

lemma f32_zero [simp]: "f32 0 = 0" by (simp add: f32_def)

lemma f64_minus: "f64 (- x) = - f64 x" by (simp add: f64_def float_round_minus)

lemma f32_minus: "f32 (- x) = - f32 x" by (simp add: f32_def float_round_minus)

lemma f64_nonneg: "0 \<le> x \<Longrightarrow> 0 \<le> f64 x" by (simp add: f64_def float_round_nonneg)

lemma f32_nonneg: "0 \<le> x \<Longrightarrow> 0 \<le> f32 x" by (simp add: f32_def float_round_nonneg)

lemma f64_nonpos: "x \<le> 0 \<Longrightarrow> f64 x \<le> 0"
  using f64_mono[of x 0] by simp

lemma f32_nonpos: "x \<le> 0 \<Longrightarrow> f32 x \<le> 0"
  using f32_mono[of x 0] by simp

lemma f64_le_double: "0 \<le> x \<Longrightarrow> f64 x \<le> 2 * x"
  by (simp add: f64_def float_round_le_double)

lemma f64_idem [simp]: "f64 (f64 x) = f64 x"
  unfolding f64_def by (rule float_round_idem) simp

lemma f32_idem [simp]: "f32 (f32 x) = f32 x"
  unfolding f32_def by (rule float_round_idem) simp

lemma f64_f32 [simp]: "f64 (f32 x) = f32 x"
proof -
  have "representable 24 (- 149) (f32 x)"
    unfolding f32_def by (rule float_round_representable) simp
  then have "representable 53 (- 1074) (f32 x)"
    by (rule representable_weaken) simp_all
  then show ?thesis unfolding f64_def by (rule representable_fixed)
qed

lemma f64_fixed_f32: "f32 x = x \<Longrightarrow> f64 x = x"
  using f64_f32[of x] by simp

lemma f64_exact:
  "\<bar>m\<bar> < 2 ^ 53 \<Longrightarrow> - 1074 \<le> a \<Longrightarrow> f64 (of_int m * 2 powr of_int a) = of_int m * 2 powr of_int a"
  unfolding f64_def by (rule float_round_exact)

lemma f32_exact:
  "\<bar>m\<bar> < 2 ^ 24 \<Longrightarrow> - 149 \<le> a \<Longrightarrow> f32 (of_int m * 2 powr of_int a) = of_int m * 2 powr of_int a"
  unfolding f32_def by (rule float_round_exact)

lemma f64_of_int: "\<bar>m\<bar> < 2 ^ 53 \<Longrightarrow> f64 (of_int m) = of_int m"
  using f64_exact[of m 0] by simp

lemma f32_of_int: "\<bar>m\<bar> < 2 ^ 24 \<Longrightarrow> f32 (of_int m) = of_int m"
  using f32_exact[of m 0] by simp

lemma f64_dyadic:
  assumes "\<bar>m\<bar> < 2 ^ 53" and "k \<le> 1074"
  shows "f64 (of_int m / 2 ^ k) = of_int m / 2 ^ k"
proof -
  have "(2::real) powr of_int (- int k) = 1 / 2 ^ k"
    by (simp add: powr_minus_divide powr_realpow)
  then show ?thesis using f64_exact[OF assms(1), of "- int k"] assms(2) by simp
qed

lemma f32_dyadic:
  assumes "\<bar>m\<bar> < 2 ^ 24" and "k \<le> 149"
  shows "f32 (of_int m / 2 ^ k) = of_int m / 2 ^ k"
proof -
  have "(2::real) powr of_int (- int k) = 1 / 2 ^ k"
    by (simp add: powr_minus_divide powr_realpow)
  then show ?thesis using f32_exact[OF assms(1), of "- int k"] assms(2) by simp
qed

lemma f64_error: "\<bar>f64 x - x\<bar> \<le> \<bar>x\<bar> / 2 ^ 53 + 1 / 2 ^ 200"
proof -
  have "\<bar>f64 x - x\<bar> \<le> \<bar>x\<bar> * 2 powr (- real (53::nat)) + 2 powr (of_int (- 1074) - 1)"
    unfolding f64_def by (rule float_round_error) simp
  moreover have "(2::real) powr (- real (53::nat)) = 1 / 2 ^ 53"
    by (simp add: powr_minus_divide)
  moreover have "(2::real) powr (of_int (- 1074) - 1) \<le> 2 powr (- 200)"
    by (rule powr_mono) simp_all
  moreover have "(2::real) powr (- 200) = 1 / 2 ^ 200"
    by (simp add: powr_minus_divide)
  ultimately show ?thesis by (simp only: mult_1_right times_divide_eq_right)
qed

lemma f32_error: "\<bar>f32 x - x\<bar> \<le> \<bar>x\<bar> / 2 ^ 24 + 1 / 2 ^ 100"
proof -
  have "\<bar>f32 x - x\<bar> \<le> \<bar>x\<bar> * 2 powr (- real (24::nat)) + 2 powr (of_int (- 149) - 1)"
    unfolding f32_def by (rule float_round_error) simp
  moreover have "(2::real) powr (- real (24::nat)) = 1 / 2 ^ 24"
    by (simp add: powr_minus_divide)
  moreover have "(2::real) powr (of_int (- 149) - 1) \<le> 2 powr (- 100)"
    by (rule powr_mono) simp_all
  moreover have "(2::real) powr (- 100) = 1 / 2 ^ 100"
    by (simp add: powr_minus_divide)
  ultimately show ?thesis by (simp only: mult_1_right times_divide_eq_right)
qed


lemma two_powr_neg: "(2::real) powr of_int (- int k) = 1 / 2 ^ k"
  by (simp add: powr_minus powr_realpow divide_inverse)

lemma float_round_eval:
  assumes lo: "2 powr of_int e \<le> \<bar>x\<bar>" and hi: "\<bar>x\<bar> < 2 powr (of_int e + 1)"
    and emin: "emin \<le> e - int p + 1"
    and near: "\<bar>x / 2 powr of_int (e - int p + 1) - of_int n\<bar> < 1 / 2"
  shows "float_round p emin x = of_int n * 2 powr of_int (e - int p + 1)"
proof -
  have x0: "x \<noteq> 0" using lo by (smt (verit) powr_gt_zero)
  have b: "binade x = e" using lo hi by (rule binade_eqI)
  have u: "ulp_exponent p emin x = e - int p + 1"
    using emin by (simp add: ulp_exponent_def b)
  have "round_half_even (x / 2 powr of_int (e - int p + 1)) = n"
    using near by (intro round_half_even_eqI) simp
  then show ?thesis using x0 by (simp add: float_round_def u)
qed

lemma f32_eval_below_one:
  assumes "1 / 2 \<le> \<bar>x\<bar>" and "\<bar>x\<bar> < 1" and "\<bar>x * 2 ^ 24 - of_int n\<bar> < 1 / 2"
  shows "f32 x = of_int n / 2 ^ 24"
proof -
  have p: "(2::real) powr of_int (- 1) = 1 / 2" using two_powr_neg[of 1] by simp
  have q: "(2::real) powr of_int (- 1 - int 24 + 1) = 1 / 2 ^ 24" using two_powr_neg[of 24] by simp
  have "float_round 24 (- 149) x = of_int n * 2 powr of_int (- 1 - int 24 + 1)"
  proof (rule float_round_eval)
    show "2 powr of_int (- 1) \<le> \<bar>x\<bar>" using assms(1) p by simp
    show "\<bar>x\<bar> < 2 powr (of_int (- 1) + 1)" using assms(2) by simp
    show "- 149 \<le> - 1 - int 24 + 1" by simp
    show "\<bar>x / 2 powr of_int (- 1 - int 24 + 1) - of_int n\<bar> < 1 / 2"
      unfolding q using assms(3) by simp
  qed
  then show ?thesis unfolding q by (simp add: f32_def)
qed

lemma f32_eval_8_16:
  assumes "8 \<le> \<bar>x\<bar>" and "\<bar>x\<bar> < 16" and "\<bar>x * 2 ^ 20 - of_int n\<bar> < 1 / 2"
  shows "f32 x = of_int n / 2 ^ 20"
proof -
  have p: "(2::real) powr of_int 3 = 8" "(2::real) powr (of_int 3 + 1) = 16"
    using powr_realpow[of "2::real" 3] powr_realpow[of "2::real" 4] by simp_all
  have q: "(2::real) powr of_int (3 - int 24 + 1) = 1 / 2 ^ 20" using two_powr_neg[of 20] by simp
  have "float_round 24 (- 149) x = of_int n * 2 powr of_int (3 - int 24 + 1)"
  proof (rule float_round_eval)
    show "2 powr of_int 3 \<le> \<bar>x\<bar>" using assms(1) p by simp
    show "\<bar>x\<bar> < 2 powr (of_int 3 + 1)" using assms(2) p by simp
    show "- 149 \<le> 3 - int 24 + 1" by simp
    show "\<bar>x / 2 powr of_int (3 - int 24 + 1) - of_int n\<bar> < 1 / 2"
      unfolding q using assms(3) by simp
  qed
  then show ?thesis unfolding q by (simp add: f32_def)
qed


section \<open>Properties of the classifier\<close>


lemma f64_numeral: "(numeral n :: int) < 2 ^ 53 \<Longrightarrow> f64 (numeral n) = numeral n"
  using f64_of_int[of "numeral n"] by simp

lemma f64_neg_numeral: "(numeral n :: int) < 2 ^ 53 \<Longrightarrow> f64 (- numeral n) = - numeral n"
  using f64_of_int[of "- numeral n"] by simp

lemma f64_one [simp]: "f64 1 = 1"
  using f64_of_int[of 1] by simp

lemmas landmark_index_defs =
  WRIST_def THUMB_TIP_def INDEX_MCP_def INDEX_TIP_def MIDDLE_MCP_def MIDDLE_TIP_def
  RING_MCP_def RING_TIP_def PINKY_MCP_def PINKY_TIP_def FINGERTIPS_def MCP_JOINTS_def

lemma landmark_at_in: "i < length lms \<Longrightarrow> landmark_at lms i = Inr (lms ! i)"
  by (simp add: landmark_at_def)

lemma count_extended_in:
  "\<forall>i \<in> set idxs. i < length lms \<Longrightarrow>
   count_extended lms pc hs idxs n =
     Inr (n + length (filter (\<lambda>t. div64 (distance (lms ! t) pc) hs > f64 1.3) idxs))"
  by (induction idxs arbitrary: n) (simp_all add: landmark_at_in Let_def)

lemma landmark_at_21:
  assumes "21 \<le> length lms"
  shows "landmark_at lms WRIST = Inr (lms ! 0)"
    and "landmark_at lms MIDDLE_MCP = Inr (lms ! 9)"
    and "\<forall>i \<in> set MCP_JOINTS. i < length lms"
    and "\<forall>i \<in> set FINGERTIPS. i < length lms"
  using assms by (auto simp: landmark_at_def landmark_index_defs)

lemma palm_sums_mcp:
  assumes "21 \<le> length lms"
  shows "palm_sums lms MCP_JOINTS (a, b, c) =
     Inr (add64 (add64 (add64 (add64 a (lm_x (lms ! 5))) (lm_x (lms ! 9))) (lm_x (lms ! 13))) (lm_x (lms ! 17)),
          add64 (add64 (add64 (add64 b (lm_y (lms ! 5))) (lm_y (lms ! 9))) (lm_y (lms ! 13))) (lm_y (lms ! 17)),
          add64 (add64 (add64 (add64 c (z_or_0 (lms ! 5))) (z_or_0 (lms ! 9))) (z_or_0 (lms ! 13))) (z_or_0 (lms ! 17)))"
proof -
  have "5 < length lms" "9 < length lms" "13 < length lms" "17 < length lms" using assms by simp_all
  then show ?thesis by (simp add: landmark_index_defs landmark_at_def)
qed

lemma distance_landmark3: "distance (landmark3 p) (landmark3 q) = euclidean64 p q"
  by (cases p; cases q)
     (simp add: distance_def landmark3_def euclidean64_def square64_def z_or_0_def
        add64_def sub64_def mul64_def sqrt64_def Let_def)

lemma nth_map_21: "21 \<le> length pts \<Longrightarrow> i < 21 \<Longrightarrow> map f pts ! i = f (pts ! i)"
  by simp

lemma getPalmCenter_spec:
  assumes "21 \<le> length pts"
  shows "getPalmCenter (map landmark3 pts) = Inr (landmark3 (palm_center_spec pts))"
proof -
  have len: "21 \<le> length (map landmark3 pts)" using assms by simp
  note n = nth_map_21[OF assms, of 0] nth_map_21[OF assms, of 5] nth_map_21[OF assms, of 9]
    nth_map_21[OF assms, of 13] nth_map_21[OF assms, of 17]
  obtain wx wy wz where w: "pts ! 0 = (wx, wy, wz)" by (cases "pts ! 0") auto
  obtain ix iy iz where i: "pts ! 5 = (ix, iy, iz)" by (cases "pts ! 5") auto
  obtain mx my mz where m: "pts ! 9 = (mx, my, mz)" by (cases "pts ! 9") auto
  obtain rx ry rz where r: "pts ! 13 = (rx, ry, rz)" by (cases "pts ! 13") auto
  obtain qx qy qz where q: "pts ! 17 = (qx, qy, qz)" by (cases "pts ! 17") auto
  show ?thesis
    unfolding getPalmCenter_def landmark_at_21(1)[OF len] palm_sums_mcp[OF len]
    by (simp add: n palm_center_spec_def w i m r q landmark3_def z_or_0_def
        mean5_def add64_def div64_def MCP_JOINTS_def)
qed

lemma getHandSize_spec:
  assumes "21 \<le> length pts"
  shows "getHandSize (map landmark3 pts) = Inr (hand_size_spec pts)"
proof -
  have len: "21 \<le> length (map landmark3 pts)" using assms by simp
  show ?thesis
    unfolding getHandSize_def landmark_at_21(1,2)[OF len]
    by (simp add: nth_map_21[OF assms, of 0] nth_map_21[OF assms, of 9]
        hand_size_spec_def distance_landmark3)
qed

lemma count_extended_fingertips:
  assumes "21 \<le> length lms"
  shows "count_extended lms pc hs FINGERTIPS 0 =
     Inr (length (filter (\<lambda>t. div64 (distance (lms ! t) pc) hs > f64 1.3) [4, 8, 12, 16, 20]))"
  unfolding count_extended_in[OF landmark_at_21(4)[OF assms]]
  by (simp add: landmark_index_defs)

lemma detectHandState_refines:
  assumes "21 \<le> length pts"
  shows "detectHandState (Some (map landmark3 pts)) = Inr (classify_spec pts)"
proof -
  have len: "21 \<le> length (map landmark3 pts)" using assms by simp
  note n = nth_map_21[OF assms, of 4] nth_map_21[OF assms, of 8] nth_map_21[OF assms, of 12]
    nth_map_21[OF assms, of 16] nth_map_21[OF assms, of 20]
  have flt: "filter (\<lambda>t. div64 (distance (map landmark3 pts ! t) (landmark3 (palm_center_spec pts)))
                  (hand_size_spec pts) > f64 1.3) [4, 8, 12, 16, 20]
           = filter (\<lambda>t. normalized_tip_distance pts t > f64 1.3) [4, 8, 12, 16, 20]"
    by (simp add: n normalized_tip_distance_def distance_landmark3 div64_def)
  have nl: "\<not> length (map landmark3 pts) < 21" using assms by simp
  show ?thesis
    unfolding detectHandState_def option.case if_not_P[OF nl]
      getPalmCenter_spec[OF assms] getHandSize_spec[OF assms] sum.case
      count_extended_fingertips[OF len] flt classify_spec_def Let_def
    by simp
qed


lemma f64_threshold_bounds: "1 \<le> f64 1.3" "f64 1.3 \<le> 11 / 8"
proof -
  have "f64 1 \<le> f64 1.3" by (rule f64_mono) simp
  then show "1 \<le> f64 1.3" by simp
  have "f64 1.3 \<le> f64 (of_int 11 / 2 ^ 3)" by (rule f64_mono) simp
  also have "\<dots> = of_int 11 / 2 ^ 3" by (rule f64_dyadic) simp_all
  finally show "f64 1.3 \<le> 11 / 8" by simp
qed

lemma f64_extended_bound: "3 / 2 \<le> f64 1.6"
proof -
  have "f64 (of_int 3 / 2 ^ 1) = of_int 3 / 2 ^ 1" by (rule f64_dyadic) simp_all
  moreover have "f64 (of_int 3 / 2 ^ 1) \<le> f64 1.6" by (rule f64_mono) simp
  ultimately show ?thesis by simp
qed

lemma f64_epsilon_bound: "f64 0.01 \<le> 1"
proof -
  have "f64 0.01 \<le> f64 1" by (rule f64_mono) simp
  then show ?thesis by simp
qed

lemma sqrt_576: "sqrt 576 = 24"
  by (rule real_sqrt_unique) simp_all

lemma sqrt_225: "sqrt 225 = 15"
  by (rule real_sqrt_unique) simp_all

lemma scenario_hand_length: "length (scenario_hand tip) = 21"
  by (simp add: scenario_hand_def)

lemma scenario_palm_center: "palm_center_spec (scenario_hand tip) = (0, 15, 0)"
  by (simp add: palm_center_spec_def scenario_hand_def mean5_def f64_numeral f64_neg_numeral f64_zero)

lemma scenario_hand_size: "hand_size_spec (scenario_hand tip) = 15"
  by (simp add: hand_size_spec_def scenario_hand_def euclidean64_def square64_def
      f64_numeral f64_neg_numeral f64_zero sqrt_225)

lemma scenario_open_distance:
  "t \<in> set FINGERTIPS \<Longrightarrow> normalized_tip_distance (scenario_hand (8, 31, 16)) t = f64 1.6"
  unfolding normalized_tip_distance_def scenario_hand_size scenario_palm_center
  by (auto simp: landmark_index_defs scenario_hand_def euclidean64_def square64_def
      f64_numeral f64_neg_numeral f64_zero sqrt_576)

lemma scenario_fist_distance:
  "t \<in> set FINGERTIPS \<Longrightarrow> normalized_tip_distance (scenario_hand (10, 25, 5)) t = 1"
  unfolding normalized_tip_distance_def scenario_hand_size scenario_palm_center
  by (auto simp: landmark_index_defs scenario_hand_def euclidean64_def square64_def
      f64_numeral f64_neg_numeral f64_zero sqrt_225)



lemma detectHandState_value:
  assumes "21 \<le> length lms"
  shows "\<exists>r. detectHandState (Some lms) = Inr r"
proof -
  have nl: "\<not> length lms < 21" using assms by simp
  obtain pc where pc: "getPalmCenter lms = Inr pc"
    unfolding getPalmCenter_def landmark_at_21(1)[OF assms] palm_sums_mcp[OF assms]
    by (simp add: Let_def)
  obtain hs where hs: "getHandSize lms = Inr hs"
    unfolding getHandSize_def landmark_at_21(1,2)[OF assms] by simp
  show ?thesis
    unfolding detectHandState_def option.case if_not_P[OF nl] pc hs sum.case
      count_extended_fingertips[OF assms]
    by simp
qed

text \<open>
  Claim C9. detectHandState never throws: an absent argument and an array of fewer than 21
  landmarks both give null, the latter although reading landmark 20 of such an array would
  throw, so no landmark is read; and on every argument the result is a value, not an error.
  In distance a landmark without z counts as one with z = 0.
\<close>

theorem detectHandState_total:
  "detectHandState None = Inr None
 \<and> (length lms < 21 \<longrightarrow>
      detectHandState (Some lms) = Inr None \<and> landmark_at lms PINKY_TIP = Inl TypeError)
 \<and> detectHandState arg \<noteq> Inl e
 \<and> distance (p\<lparr>lm_z := None\<rparr>) q = distance (p\<lparr>lm_z := Some 0\<rparr>) q
 \<and> distance q (p\<lparr>lm_z := None\<rparr>) = distance q (p\<lparr>lm_z := Some 0\<rparr>)"
proof -
  have absent: "detectHandState None = Inr None"
    by (simp add: detectHandState_def)
  have short: "detectHandState (Some lms) = Inr None \<and> landmark_at lms PINKY_TIP = Inl TypeError"
    if "length lms < 21"
    using that by (simp add: detectHandState_def landmark_at_def PINKY_TIP_def)
  have total: "detectHandState arg \<noteq> Inl e"
  proof (cases arg)
    case None
    then show ?thesis by (simp add: absent)
  next
    case (Some l)
    show ?thesis
    proof (cases "length l < 21")
      case True
      then show ?thesis using Some by (simp add: detectHandState_def)
    next
      case False
      then have "21 \<le> length l" by simp
      from detectHandState_value[OF this] show ?thesis using Some by auto
    qed
  qed
  have flat: "distance (p\<lparr>lm_z := None\<rparr>) q = distance (p\<lparr>lm_z := Some 0\<rparr>) q"
    "distance q (p\<lparr>lm_z := None\<rparr>) = distance q (p\<lparr>lm_z := Some 0\<rparr>)"
    by (simp_all add: distance_def z_or_0_def)
  show ?thesis using absent short total flat by blast
qed

theorem detectHandState_total_witness:
  "length [flat_point 0 0] < 21
 \<and> detectHandState (Some [flat_point 0 0]) = Inr None
 \<and> landmark_at [flat_point 0 0] PINKY_TIP = Inl TypeError"
  using detectHandState_total[of "[flat_point 0 0]"] by simp

section \<open>Properties of the detector\<close>

text \<open>
  An Unknown frame, and a frame equal to the confirmed state, clear the pending label and
  its counter and return null.
\<close>

lemma update_raw_resets:
  "rawState = None \<or> rawState = currentState d \<Longrightarrow>
   update_raw rawState d = (None, d\<lparr>pendingState := None, pendingCount := 0\<rparr>)"
  by (auto simp: update_raw_def)

lemma feed_append:
  "feed d (xs @ ys) =
     (case feed d xs of (o1, d1) \<Rightarrow> (case feed d1 ys of (o2, d2) \<Rightarrow> (o1 @ o2, d2)))"
  by (induction xs arbitrary: d) (auto split: prod.splits)

lemma feed_pending_run:
  "pendingState d = Some L \<Longrightarrow> currentState d \<noteq> Some L \<Longrightarrow>
   pendingCount d + int n < debounceFrames d \<Longrightarrow>
   feed d (replicate n (Some L)) = (replicate n None, d\<lparr>pendingCount := pendingCount d + int n\<rparr>)"
proof (induction n arbitrary: d)
  case 0
  then show ?case by simp
next
  case (Suc n)
  let ?d1 = "d\<lparr>pendingCount := pendingCount d + 1\<rparr>"
  have step: "update_raw (Some L) d = (None, ?d1)"
    using Suc.prems by (auto simp: update_raw_def Let_def)
  have "feed ?d1 (replicate n (Some L)) =
          (replicate n None, ?d1\<lparr>pendingCount := pendingCount ?d1 + int n\<rparr>)"
    using Suc.prems by (intro Suc.IH) auto
  then show ?case using step by (simp add: add.assoc add.commute)
qed

text \<open>
  For a threshold T of at least 2: from a detector whose confirmed and pending states both
  differ from L, T frames carrying L return null T - 1 times and L on the T-th, and leave L
  confirmed with nothing pending.
\<close>

lemma feed_confirms_on_last:
  assumes T: "2 \<le> debounceFrames d"
    and cur: "currentState d \<noteq> Some L"
    and pen: "pendingState d \<noteq> Some L"
  shows "feed d (replicate (nat (debounceFrames d)) (Some L)) =
           (replicate (nat (debounceFrames d) - 1) None @ [Some L],
            d\<lparr>currentState := Some L, pendingState := None, pendingCount := 0\<rparr>)"
proof -
  define n where "n = nat (debounceFrames d) - 2"
  have len: "nat (debounceFrames d) = Suc (n + 1)" using T by (simp add: n_def)
  let ?d1 = "d\<lparr>pendingState := Some L, pendingCount := 1\<rparr>"
  let ?d2 = "?d1\<lparr>pendingCount := pendingCount ?d1 + int n\<rparr>"
  have first: "update_raw (Some L) d = (None, ?d1)"
    using cur pen by (auto simp: update_raw_def)
  have middle: "feed ?d1 (replicate n (Some L)) = (replicate n None, ?d2)"
    using T cur by (intro feed_pending_run) (auto simp: n_def)
  have last: "update_raw (Some L) ?d2 =
      (Some L, d\<lparr>currentState := Some L, pendingState := None, pendingCount := 0\<rparr>)"
    using T cur by (auto simp: update_raw_def Let_def n_def)
  have "replicate (nat (debounceFrames d)) (Some L) = Some L # (replicate n (Some L) @ [Some L])"
    unfolding len by (simp add: replicate_append_same)
  then show ?thesis
    using first middle last by (simp add: feed_append len)
qed

text \<open>
  With the default threshold 5 and the confirmed state Fist, five frames carrying Open
  return null four times and Open on the fifth.
\<close>

lemma debounce_default_scenario:
  "fst (feed ((new_GestureDetector 5)\<lparr>currentState := Some Fist\<rparr>) (replicate 5 (Some Open)))
     = [None, None, None, None, Some Open]"
  using feed_confirms_on_last[of "(new_GestureDetector 5)\<lparr>currentState := Some Fist\<rparr>" Open]
  by (simp add: new_GestureDetector_def numeral_eq_Suc)

text \<open>
  Claim C1, at the threshold 1. The first frame carrying Open, which is then the T-th
  consecutive one, returns null and only starts the pending count, both from the fresh
  detector and from the confirmed state Fist; the emission comes with the second frame.
\<close>

theorem debounce_threshold_one:
  "feed (new_GestureDetector 1) [Some Open] =
     ([None], \<lparr>debounceFrames = 1, currentState = None, pendingState = Some Open, pendingCount = 1\<rparr>)
 \<and> fst (feed (new_GestureDetector 1) [Some Open, Some Open]) = [None, Some Open]
 \<and> fst (feed (new_GestureDetector 1\<lparr>currentState := Some Fist\<rparr>) [Some Open]) = [None]"
  by (simp add: new_GestureDetector_def update_raw_def Let_def)

lemma feed_snoc:
  "feed d (ls @ [l]) =
     (case feed d ls of (outs, d') \<Rightarrow> (case update_raw l d' of (out, d'') \<Rightarrow> (outs @ [out], d'')))"
  by (simp add: feed_append split: prod.splits)

lemma emissions_ok_snoc_None:
  assumes "emissions_ok d0 ls outs" "length outs = length ls"
  shows "emissions_ok d0 (ls @ [l]) (outs @ [None])"
  unfolding emissions_ok_def
proof (intro allI impI)
  fix i L
  assume a: "i < length (ls @ [l]) \<and> (outs @ [None]) ! i = Some L"
  have "i \<noteq> length ls" using a assms(2) by (auto simp: nth_append)
  then have i: "i < length ls" using a by simp
  then have "outs ! i = Some L" using a assms(2) by (simp add: nth_append)
  then obtain m where m: "int m = max (debounceFrames d0) 2" "m \<le> i + 1"
      "\<forall>j. i + 1 - m \<le> j \<and> j \<le> i \<longrightarrow> ls ! j = Some L"
      "\<forall>j. i + 1 - m \<le> j \<and> j < i \<longrightarrow> outs ! j = None"
      "currentState (snd (feed d0 (take (i + 1 - m) ls))) \<noteq> Some L"
    using assms(1) i unfolding emissions_ok_def by blast
  show "\<exists>m. int m = max (debounceFrames d0) 2 \<and> m \<le> i + 1
           \<and> (\<forall>j. i + 1 - m \<le> j \<and> j \<le> i \<longrightarrow> (ls @ [l]) ! j = Some L)
           \<and> (\<forall>j. i + 1 - m \<le> j \<and> j < i \<longrightarrow> (outs @ [None]) ! j = None)
           \<and> currentState (snd (feed d0 (take (i + 1 - m) (ls @ [l])))) \<noteq> Some L"
    using m i assms(2) by (intro exI[of _ m]) (auto simp: nth_append)
qed


lemma debounce_step:
  assumes inv: "pending_run_ok d0 ls outs d"
    and em: "emissions_ok d0 ls outs"
    and fd: "feed d0 ls = (outs, d)"
    and up: "update_raw l d = (out, d')"
  shows "pending_run_ok d0 (ls @ [l]) (outs @ [out]) d' \<and> emissions_ok d0 (ls @ [l]) (outs @ [out])"
proof -
  have T: "debounceFrames d = debounceFrames d0" and len: "length outs = length ls"
    using inv by (simp_all add: pending_run_ok_def)
  consider (reset) "l = None \<or> l = currentState d"
    | (fresh) L where "l = Some L" "l \<noteq> currentState d" "l \<noteq> pendingState d"
    | (count) L where "l = Some L" "l \<noteq> currentState d" "l = pendingState d"
        "\<not> pendingCount d + 1 \<ge> debounceFrames d"
    | (emit) L where "l = Some L" "l \<noteq> currentState d" "l = pendingState d"
        "pendingCount d + 1 \<ge> debounceFrames d"
    by (cases l) blast+
  then show ?thesis
  proof cases
    case reset
    have o: "out = None" and d': "d' = d\<lparr>pendingState := None, pendingCount := 0\<rparr>"
      using up update_raw_resets[OF reset] by simp_all
    have "pending_run_ok d0 (ls @ [l]) (outs @ [out]) d'"
      using T len by (simp add: pending_run_ok_def d')
    moreover have "emissions_ok d0 (ls @ [l]) (outs @ [out])"
      unfolding o using em len by (rule emissions_ok_snoc_None)
    ultimately show ?thesis by simp
  next
    case fresh
    then have o: "out = None" and d': "d' = d\<lparr>pendingState := Some L, pendingCount := 1\<rparr>"
      using up by (auto simp: update_raw_def)
    have "pending_run_ok d0 (ls @ [l]) (outs @ [out]) d'"
      unfolding pending_run_ok_def
    proof (intro conjI allI impI)
      fix L' assume "pendingState d' = Some L'"
      then have L': "L' = L" by (simp add: d')
      show "\<exists>c. pendingCount d' = int c \<and> 1 \<le> c \<and> int c < max (debounceFrames d0) 2
              \<and> c \<le> length (ls @ [l])
              \<and> (\<forall>j. length (ls @ [l]) - c \<le> j \<and> j < length (ls @ [l]) \<longrightarrow>
                    (ls @ [l]) ! j = Some L' \<and> (outs @ [out]) ! j = None)
              \<and> currentState d' \<noteq> Some L'
              \<and> currentState (snd (feed d0 (take (length (ls @ [l]) - c) (ls @ [l])))) = currentState d'"
        using fresh len fd by (intro exI[of _ 1]) (auto simp: d' o L' nth_append)
    qed (simp_all add: T len d')
    moreover have "emissions_ok d0 (ls @ [l]) (outs @ [out])"
      unfolding o using em len by (rule emissions_ok_snoc_None)
    ultimately show ?thesis by simp
  next
    case count
    then have o: "out = None" and d': "d' = d\<lparr>pendingCount := pendingCount d + 1\<rparr>"
      using up by (auto simp: update_raw_def Let_def)
    from inv count obtain c where c: "pendingCount d = int c" "1 \<le> c"
        "int c < max (debounceFrames d0) 2" "c \<le> length ls"
        "\<forall>j. length ls - c \<le> j \<and> j < length ls \<longrightarrow> ls ! j = Some L \<and> outs ! j = None"
        "currentState d \<noteq> Some L"
        "currentState (snd (feed d0 (take (length ls - c) ls))) = currentState d"
      unfolding pending_run_ok_def by (metis)
    have "pending_run_ok d0 (ls @ [l]) (outs @ [out]) d'"
      unfolding pending_run_ok_def
    proof (intro conjI allI impI)
      fix L' assume "pendingState d' = Some L'"
      then have L': "L' = L" using count by (simp add: d')
      show "\<exists>c. pendingCount d' = int c \<and> 1 \<le> c \<and> int c < max (debounceFrames d0) 2
              \<and> c \<le> length (ls @ [l])
              \<and> (\<forall>j. length (ls @ [l]) - c \<le> j \<and> j < length (ls @ [l]) \<longrightarrow>
                    (ls @ [l]) ! j = Some L' \<and> (outs @ [out]) ! j = None)
              \<and> currentState d' \<noteq> Some L'
              \<and> currentState (snd (feed d0 (take (length (ls @ [l]) - c) (ls @ [l])))) = currentState d'"
        using count c len T by (intro exI[of _ "Suc c"]) (auto simp: d' o L' nth_append)
    qed (simp_all add: T len d')
    moreover have "emissions_ok d0 (ls @ [l]) (outs @ [out])"
      unfolding o using em len by (rule emissions_ok_snoc_None)
    ultimately show ?thesis by simp
  next
    case emit
    then have o: "out = Some L"
      and d': "d' = d\<lparr>pendingCount := 0, currentState := Some L, pendingState := None\<rparr>"
      using up by (auto simp: update_raw_def Let_def)
    from inv emit obtain c where c: "pendingCount d = int c" "1 \<le> c"
        "int c < max (debounceFrames d0) 2" "c \<le> length ls"
        "\<forall>j. length ls - c \<le> j \<and> j < length ls \<longrightarrow> ls ! j = Some L \<and> outs ! j = None"
        "currentState d \<noteq> Some L"
        "currentState (snd (feed d0 (take (length ls - c) ls))) = currentState d"
      unfolding pending_run_ok_def by (metis)
    have m: "int (Suc c) = max (debounceFrames d0) 2"
      using c(1,2,3) emit(4) T by auto
    have "pending_run_ok d0 (ls @ [l]) (outs @ [out]) d'"
      using T len by (simp add: pending_run_ok_def d')
    moreover have "emissions_ok d0 (ls @ [l]) (outs @ [out])"
      unfolding emissions_ok_def
    proof (intro allI impI)
      fix i L'
      assume a: "i < length (ls @ [l]) \<and> (outs @ [out]) ! i = Some L'"
      show "\<exists>m. int m = max (debounceFrames d0) 2 \<and> m \<le> i + 1
           \<and> (\<forall>j. i + 1 - m \<le> j \<and> j \<le> i \<longrightarrow> (ls @ [l]) ! j = Some L')
           \<and> (\<forall>j. i + 1 - m \<le> j \<and> j < i \<longrightarrow> (outs @ [out]) ! j = None)
           \<and> currentState (snd (feed d0 (take (i + 1 - m) (ls @ [l])))) \<noteq> Some L'"
      proof (cases "i = length ls")
        case True
        then have L': "L' = L" using a len by (simp add: o nth_append)
        show ?thesis
          using True c emit(1) len m
          by (intro exI[of _ "Suc c"]) (auto simp: L' o nth_append)
      next
        case False
        then have i: "i < length ls" using a by simp
        then have "outs ! i = Some L'" using a len by (simp add: nth_append)
        then obtain m where m: "int m = max (debounceFrames d0) 2" "m \<le> i + 1"
          "\<forall>j. i + 1 - m \<le> j \<and> j \<le> i \<longrightarrow> ls ! j = Some L'"
          "\<forall>j. i + 1 - m \<le> j \<and> j < i \<longrightarrow> outs ! j = None"
          "currentState (snd (feed d0 (take (i + 1 - m) ls))) \<noteq> Some L'"
          using em i unfolding emissions_ok_def by blast
        show ?thesis
          using m i len by (intro exI[of _ m]) (auto simp: nth_append)
      qed
    qed
    ultimately show ?thesis by simp
  qed
qed

lemma debounce_run_invariant:
  assumes "pendingState d0 = None"
  shows "pending_run_ok d0 ls (fst (feed d0 ls)) (snd (feed d0 ls))
       \<and> emissions_ok d0 ls (fst (feed d0 ls))"
proof (induction ls rule: rev_induct)
  case Nil
  then show ?case using assms by (simp add: pending_run_ok_def emissions_ok_def)
next
  case (snoc l ls)
  obtain outs d where fd: "feed d0 ls = (outs, d)" by (cases "feed d0 ls")
  obtain out d' where up: "update_raw l d = (out, d')" by (cases "update_raw l d")
  have "feed d0 (ls @ [l]) = (outs @ [out], d')"
    by (simp add: feed_snoc fd up)
  then show ?case
    using debounce_step[OF _ _ fd up] snoc.IH fd by simp
qed

text \<open>
  From a new detector, on any sequence of labels: a frame that returns L is the last of m
  consecutive frames carrying L, with m the larger of the threshold and 2; the earlier
  frames of that run return null, and L is not the confirmed state when the run starts.
\<close>

lemma debounce_never_early:
  assumes "i < length ls" and "fst (feed (new_GestureDetector T) ls) ! i = Some L"
  shows "\<exists>m. int m = max T 2 \<and> m \<le> i + 1
           \<and> (\<forall>j. i + 1 - m \<le> j \<and> j \<le> i \<longrightarrow> ls ! j = Some L)
           \<and> (\<forall>j. i + 1 - m \<le> j \<and> j < i \<longrightarrow> fst (feed (new_GestureDetector T) ls) ! j = None)
           \<and> currentState (snd (feed (new_GestureDetector T) (take (i + 1 - m) ls))) \<noteq> Some L"
proof -
  have "emissions_ok (new_GestureDetector T) ls (fst (feed (new_GestureDetector T) ls))"
    using debounce_run_invariant[of "new_GestureDetector T" ls]
    by (simp add: new_GestureDetector_def)
  then show ?thesis
    using assms unfolding emissions_ok_def by (simp add: new_GestureDetector_def)
qed



section \<open>Properties of the animation tick and the setters\<close>

lemma EASING_bounds: "0 \<le> EASING" "EASING \<le> 1 / 32"
proof -
  show "0 \<le> EASING" unfolding EASING_def by (rule f64_nonneg) simp
  have "f64 0.025 \<le> f64 (of_int 1 / 2 ^ 5)" by (rule f64_mono) simp
  also have "\<dots> = of_int 1 / 2 ^ 5" by (rule f64_dyadic) simp_all
  finally show "EASING \<le> 1 / 32" by (simp add: EASING_def)
qed

lemma EASING_near: "\<bar>EASING - 1 / 40\<bar> \<le> 1 / 2 ^ 57"
proof -
  have "\<bar>f64 0.025 - 0.025\<bar> \<le> \<bar>0.025\<bar> / 2 ^ 53 + 1 / 2 ^ 200" by (rule f64_error)
  also have "\<dots> \<le> 1 / 2 ^ 57" by simp
  finally show ?thesis by (simp add: EASING_def)
qed

text \<open>
  The product of the difference and EASING, rounded twice, stays between 0 and the
  difference: rounding at most doubles a value, and EASING is at most 1/32.
\<close>

lemma eased_step_up:
  assumes "p \<le> t"
  shows "0 \<le> f64 (f64 (t - p) * EASING)" and "f64 (f64 (t - p) * EASING) \<le> t - p"
proof -
  have d0: "0 \<le> f64 (t - p)" using assms by (intro f64_nonneg) simp
  have d2: "f64 (t - p) \<le> 2 * (t - p)" using assms by (intro f64_le_double) simp
  have m0: "0 \<le> f64 (t - p) * EASING" using d0 EASING_bounds(1) by simp
  show "0 \<le> f64 (f64 (t - p) * EASING)" using m0 by (rule f64_nonneg)
  have "f64 (f64 (t - p) * EASING) \<le> 2 * (f64 (t - p) * EASING)" using m0 by (rule f64_le_double)
  also have "\<dots> \<le> 2 * (f64 (t - p) * (1 / 32))"
    using d0 EASING_bounds(2) by (intro mult_left_mono) simp_all
  also have "\<dots> \<le> 2 * (2 * (t - p) * (1 / 32))" using d2 by simp
  also have "\<dots> \<le> t - p" using assms by simp
  finally show "f64 (f64 (t - p) * EASING) \<le> t - p" .
qed

lemma eased_step_down:
  assumes "t \<le> p"
  shows "f64 (f64 (t - p) * EASING) \<le> 0" and "t - p \<le> f64 (f64 (t - p) * EASING)"
proof -
  have "f64 (f64 (t - p) * EASING) = - f64 (f64 (p - t) * EASING)"
    using f64_minus[of "p - t"] f64_minus[of "f64 (p - t) * EASING"] by simp
  then show "f64 (f64 (t - p) * EASING) \<le> 0" "t - p \<le> f64 (f64 (t - p) * EASING)"
    using eased_step_up[OF assms] by simp_all
qed

lemma eased_between:
  assumes p: "f32 p = p" and t: "f64 t = t"
  shows "min p (f32 t) \<le> eased p t" and "eased p t \<le> max p (f32 t)"
proof -
  have p64: "f64 p = p" using p by (rule f64_fixed_f32)
  let ?q = "f64 (f64 (t - p) * EASING)"
  have "min p (f32 t) \<le> eased p t \<and> eased p t \<le> max p (f32 t)"
  proof (cases "p \<le> t")
    case True
    from eased_step_up[OF True] have "p \<le> p + ?q" "p + ?q \<le> t" by simp_all
    then have "f64 p \<le> f64 (p + ?q)" "f64 (p + ?q) \<le> f64 t" by (simp_all add: f64_mono)
    then have "f32 p \<le> f32 (f64 (p + ?q))" "f32 (f64 (p + ?q)) \<le> f32 t"
      unfolding p64 t by (simp_all add: f32_mono)
    then show ?thesis by (simp add: eased_def p)
  next
    case False
    then have le: "t \<le> p" by simp
    from eased_step_down[OF le] have "p + ?q \<le> p" "t \<le> p + ?q" by simp_all
    then have "f64 (p + ?q) \<le> f64 p" "f64 t \<le> f64 (p + ?q)" by (simp_all add: f64_mono)
    then have "f32 (f64 (p + ?q)) \<le> f32 p" "f32 t \<le> f32 (f64 (p + ?q))"
      unfolding p64 t by (simp_all add: f32_mono)
    then show ?thesis by (simp add: eased_def p)
  qed
  then show "min p (f32 t) \<le> eased p t" and "eased p t \<le> max p (f32 t)" by simp_all
qed

lemma eased_fixed: "f32 p = p \<Longrightarrow> eased p p = p"
  by (simp add: eased_def f64_fixed_f32)

lemma eased_f32 [simp]: "f32 (eased p t) = eased p t"
  by (simp add: eased_def)

lemma eased_closer:
  assumes p: "f32 p = p" and t: "f32 t = t"
  shows "\<bar>eased p t - t\<bar> \<le> \<bar>p - t\<bar>" and "\<bar>eased p t - p\<bar> \<le> \<bar>t - p\<bar>"
proof -
  have "f64 t = t" using t by (rule f64_fixed_f32)
  from eased_between[OF p this]
  have "min p t \<le> eased p t" "eased p t \<le> max p t" by (simp_all add: t)
  then show "\<bar>eased p t - t\<bar> \<le> \<bar>p - t\<bar>" and "\<bar>eased p t - p\<bar> \<le> \<bar>t - p\<bar>" by auto
qed


lemma f64_abs_le_double: "\<bar>f64 x\<bar> \<le> 2 * \<bar>x\<bar>"
proof (cases "0 \<le> x")
  case True
  then show ?thesis using f64_nonneg[OF True] f64_le_double[OF True] by simp
next
  case False
  then have n: "0 \<le> - x" by simp
  show ?thesis using f64_nonneg[OF n] f64_le_double[OF n] False by (simp add: f64_minus)
qed

text \<open>
  The stored value differs from p + EASING * (t - p) by the four roundings only: three to
  binary64 and the one of the store, to binary32.
\<close>

lemma eased_error:
  assumes p: "f32 p = p" and t: "f64 t = t"
  shows "\<bar>eased p t - (p + EASING * (t - p))\<bar> \<le> (\<bar>p\<bar> + \<bar>t\<bar>) / 2 ^ 23 + 1 / 2 ^ 99"
proof -
  define S where "S = \<bar>p\<bar> + \<bar>t\<bar>"
  define d where "d = f64 (t - p)"
  define q where "q = f64 (d * EASING)"
  define v where "v = f64 (p + q)"
  have p64: "f64 p = p" using p by (rule f64_fixed_f32)
  have S0: "0 \<le> S" by (simp add: S_def)
  have tp: "\<bar>t - p\<bar> \<le> S" by (simp add: S_def)
  have e1: "\<bar>d - (t - p)\<bar> \<le> S / 2 ^ 53 + 1 / 2 ^ 200"
  proof -
    have "\<bar>d - (t - p)\<bar> \<le> \<bar>t - p\<bar> / 2 ^ 53 + 1 / 2 ^ 200" unfolding d_def by (rule f64_error)
    moreover have "\<bar>t - p\<bar> / 2 ^ 53 \<le> S / 2 ^ 53" using tp by (simp add: divide_right_mono)
    ultimately show ?thesis by linarith
  qed
  have dS: "\<bar>d\<bar> \<le> 2 * S" using f64_abs_le_double[of "t - p"] tp by (simp add: d_def)
  have dE: "\<bar>d * EASING\<bar> \<le> S / 16"
  proof -
    have "\<bar>d * EASING\<bar> = \<bar>d\<bar> * EASING" using EASING_bounds(1) by (simp add: abs_mult)
    also have "\<dots> \<le> \<bar>d\<bar> * (1 / 32)" using EASING_bounds(2) by (intro mult_left_mono) simp_all
    also have "\<dots> \<le> S / 16" using dS by simp
    finally show ?thesis .
  qed
  have e2: "\<bar>q - d * EASING\<bar> \<le> (S / 16) / 2 ^ 53 + 1 / 2 ^ 200"
  proof -
    have "\<bar>q - d * EASING\<bar> \<le> \<bar>d * EASING\<bar> / 2 ^ 53 + 1 / 2 ^ 200" unfolding q_def by (rule f64_error)
    moreover have "\<bar>d * EASING\<bar> / 2 ^ 53 \<le> (S / 16) / 2 ^ 53" using dE by (simp add: divide_right_mono)
    ultimately show ?thesis by linarith
  qed
  have between: "min p t \<le> p + q \<and> p + q \<le> max p t"
  proof (cases "p \<le> t")
    case True
    from eased_step_up[OF True] show ?thesis by (simp add: q_def d_def)
  next
    case False
    then have "t \<le> p" by simp
    from eased_step_down[OF this] show ?thesis by (simp add: q_def d_def)
  qed
  then have pq: "\<bar>p + q\<bar> \<le> S" by (auto simp: S_def)
  have "f64 (min p t) \<le> v \<and> v \<le> f64 (max p t)"
    using between by (simp add: v_def f64_mono)
  moreover have "f64 (min p t) = min p t" "f64 (max p t) = max p t"
    using p64 t by (simp_all add: min_def max_def)
  ultimately have vS: "\<bar>v\<bar> \<le> S" by (auto simp: S_def)
  have e3: "\<bar>v - (p + q)\<bar> \<le> S / 2 ^ 53 + 1 / 2 ^ 200"
  proof -
    have "\<bar>v - (p + q)\<bar> \<le> \<bar>p + q\<bar> / 2 ^ 53 + 1 / 2 ^ 200" unfolding v_def by (rule f64_error)
    moreover have "\<bar>p + q\<bar> / 2 ^ 53 \<le> S / 2 ^ 53" using pq by (simp add: divide_right_mono)
    ultimately show ?thesis by linarith
  qed
  have e4: "\<bar>f32 v - v\<bar> \<le> S / 2 ^ 24 + 1 / 2 ^ 100"
  proof -
    have "\<bar>f32 v - v\<bar> \<le> \<bar>v\<bar> / 2 ^ 24 + 1 / 2 ^ 100" by (rule f32_error)
    moreover have "\<bar>v\<bar> / 2 ^ 24 \<le> S / 2 ^ 24" using vS by (simp add: divide_right_mono)
    ultimately show ?thesis by linarith
  qed
  have e5: "\<bar>EASING * (d - (t - p))\<bar> \<le> S / 2 ^ 53 + 1 / 2 ^ 200"
  proof -
    have "\<bar>EASING * (d - (t - p))\<bar> = EASING * \<bar>d - (t - p)\<bar>"
      using EASING_bounds(1) by (simp add: abs_mult)
    also have "\<dots> \<le> 1 * \<bar>d - (t - p)\<bar>" using EASING_bounds(2) by (intro mult_right_mono) simp_all
    finally show ?thesis using e1 by simp
  qed
  have split: "f32 v - (p + EASING * (t - p))
      = (f32 v - v) + (v - (p + q)) + (q - d * EASING) + EASING * (d - (t - p))"
    by (simp add: algebra_simps)
  have "\<bar>f32 v - (p + EASING * (t - p))\<bar>
      \<le> \<bar>f32 v - v\<bar> + \<bar>v - (p + q)\<bar> + \<bar>q - d * EASING\<bar> + \<bar>EASING * (d - (t - p))\<bar>"
    unfolding split by linarith
  also have "\<dots> \<le> (S / 2 ^ 24 + 1 / 2 ^ 100) + (S / 2 ^ 53 + 1 / 2 ^ 200)
      + ((S / 16) / 2 ^ 53 + 1 / 2 ^ 200) + (S / 2 ^ 53 + 1 / 2 ^ 200)"
    using e1 e2 e3 e4 e5 by linarith
  also have "\<dots> \<le> S / 2 ^ 23 + 1 / 2 ^ 99" using S0 by simp
  finally show ?thesis by (simp add: eased_def v_def q_def d_def S_def)
qed

lemma ease_particle_length:
  "length (ease_particle m hb h sp i pos) = length pos"
  by (simp add: ease_particle_def Let_def)

lemma ease_particle_nth:
  assumes "i * 3 + 2 < length pos" "j < length pos"
  shows "ease_particle m hb h sp i pos ! j =
           (if j div 3 = i then eased (pos ! j) (coord_target m hb h sp j) else pos ! j)"
proof (cases "j div 3 = i")
  case True
  then consider "j = i * 3" | "j = i * 3 + 1" | "j = i * 3 + 2" by arith
  then show ?thesis
    using assms True
    by cases (simp_all add: ease_particle_def Let_def coord_target_def eased_def
        add64_def sub64_def mul64_def)
next
  case False
  then have "j \<noteq> i * 3" "j \<noteq> i * 3 + 1" "j \<noteq> i * 3 + 2" by arith+
  then show ?thesis
    using assms False by (simp add: ease_particle_def Let_def)
qed

lemma ease_loop_length:
  "length (ease_loop m hb h sp idxs pos) = length pos"
  by (induction idxs arbitrary: pos) (simp_all add: ease_particle_length)

lemma ease_loop_nth:
  assumes "distinct idxs" "\<forall>i \<in> set idxs. i * 3 + 2 < length pos" "j < length pos"
  shows "ease_loop m hb h sp idxs pos ! j =
           (if j div 3 \<in> set idxs then eased (pos ! j) (coord_target m hb h sp j)
            else pos ! j)"
  using assms
proof (induction idxs arbitrary: pos)
  case Nil
  then show ?case by simp
next
  case (Cons i idxs)
  let ?p = "ease_particle m hb h sp i pos"
  have "ease_loop m hb h sp idxs ?p ! j =
          (if j div 3 \<in> set idxs then eased (?p ! j) (coord_target m hb h sp j)
           else ?p ! j)"
    using Cons.prems by (intro Cons.IH) (simp_all add: ease_particle_length)
  moreover have "?p ! j = (if j div 3 = i then eased (pos ! j) (coord_target m hb h sp j)
            else pos ! j)"
    using Cons.prems by (intro ease_particle_nth) simp_all
  ultimately show ?case using Cons.prems(1) by auto
qed

lemma ease_loop_all:
  assumes "length pos = 3 * n" "j < 3 * n"
  shows "ease_loop m hb h sp [0..<n] pos ! j = eased (pos ! j) (coord_target m hb h sp j)"
proof -
  have "j div 3 \<in> set [0..<n]" using assms by auto
  moreover have "\<forall>i \<in> set [0..<n]. i * 3 + 2 < length pos" using assms by auto
  ultimately show ?thesis using assms by (simp add: ease_loop_nth del: set_upt)
qed

lemma positions_animate:
  "positions (animate M s) =
     ease_loop (currentMode s)
       (if currentMode s = JString ''heart''
        then add64 1 (mul64 HEARTBEAT_AMPLITUDE (m_sin M (mul64 (add64 (time s) (f64 0.016)) HEARTBEAT_SPEED)))
        else 1)
       (heartTargets s) (spaceTargets s) [0..<PARTICLE_COUNT] (positions s)"
  by (simp add: animate_def Let_def)

lemma animate_keeps:
  "currentMode (animate M s) = currentMode s"
  "heartTargets (animate M s) = heartTargets s"
  "spaceTargets (animate M s) = spaceTargets s"
  "length (positions (animate M s)) = length (positions s)"
  by (simp_all add: animate_def Let_def ease_loop_length)

lemma animate_funpow_keeps:
  "currentMode ((animate M ^^ n) s) = currentMode s"
  "heartTargets ((animate M ^^ n) s) = heartTargets s"
  "spaceTargets ((animate M ^^ n) s) = spaceTargets s"
  "length (positions ((animate M ^^ n) s)) = length (positions s)"
  by (induction n) (simp_all add: animate_keeps)

lemma animate_coordinate:
  assumes "length (positions s) = 3 * PARTICLE_COUNT" "j < 3 * PARTICLE_COUNT"
  shows "positions (animate M s) ! j = eased (positions s ! j) (tick_target M s j)"
  unfolding positions_animate
  by (simp add: ease_loop_all[OF assms] coord_target_def tick_target_def add64_def mul64_def)

lemma float32_array_nth: "float32_array xs \<Longrightarrow> j < length xs \<Longrightarrow> f32 (xs ! j) = xs ! j"
  by (simp add: float32_array_def list_all_length)

lemma animate_allocated:
  assumes "buffers_allocated s"
  shows "buffers_allocated (animate M s)"
proof -
  have len: "length (positions s) = 3 * PARTICLE_COUNT"
    using assms by (simp add: buffers_allocated_def)
  have "float32_array (positions (animate M s))"
    unfolding float32_array_def list_all_length
    using animate_coordinate[OF len] by (simp add: animate_keeps len)
  then show ?thesis using assms by (simp add: buffers_allocated_def animate_keeps)
qed

lemma animate_funpow_allocated:
  "buffers_allocated s \<Longrightarrow> buffers_allocated ((animate M ^^ n) s)"
  by (induction n) (simp_all add: animate_allocated)

lemma tick_target_f64: "buffers_allocated s \<Longrightarrow> j < 3 * PARTICLE_COUNT \<Longrightarrow>
   f64 (tick_target M s j) = tick_target M s j"
  by (simp add: tick_target_def buffers_allocated_def float32_array_nth f64_fixed_f32)

lemma setMode_keeps:
  "positions (setMode m s) = positions s"
  "heartTargets (setMode m s) = heartTargets s"
  "spaceTargets (setMode m s) = spaceTargets s"
  "time (setMode m s) = time s"
  "targetRotationX (setMode m s) = targetRotationX s"
  "targetRotationY (setMode m s) = targetRotationY s"
  "currentRotationX (setMode m s) = currentRotationX s"
  "currentRotationY (setMode m s) = currentRotationY s"
  "containerRotation (setMode m s) = containerRotation s"
  by (simp_all add: setMode_def)

lemma setMode_allocated: "buffers_allocated s \<Longrightarrow> buffers_allocated (setMode m s)"
  by (simp add: buffers_allocated_def setMode_keeps)

text \<open>With a target that stays at t, the distance to the binary32 value of t never grows.\<close>

lemma animate_never_farther:
  assumes alloc: "buffers_allocated s" and j: "j < 3 * PARTICLE_COUNT"
    and fixed: "\<forall>k < K. tick_target M ((animate M ^^ k) s) j = t"
  shows "\<bar>positions ((animate M ^^ K) s) ! j - f32 t\<bar> \<le> \<bar>positions s ! j - f32 t\<bar>"
  using fixed
proof (induction K)
  case 0
  then show ?case by simp
next
  case (Suc K)
  let ?s = "(animate M ^^ K) s"
  have a: "buffers_allocated ?s" using alloc by (rule animate_funpow_allocated)
  then have len: "length (positions ?s) = 3 * PARTICLE_COUNT" by (simp add: buffers_allocated_def)
  have tt: "tick_target M ?s j = t" using Suc.prems by simp
  have p: "f32 (positions ?s ! j) = positions ?s ! j"
    using a j by (simp add: buffers_allocated_def float32_array_nth)
  have t64: "f64 t = t" using tick_target_f64[OF a j, of M] tt by simp
  have "positions ((animate M ^^ Suc K) s) ! j = eased (positions ?s ! j) t"
    using animate_coordinate[OF len j, of M] tt by simp
  moreover from eased_between[OF p t64]
  have "\<bar>eased (positions ?s ! j) t - f32 t\<bar> \<le> \<bar>positions ?s ! j - f32 t\<bar>" by auto
  moreover have "\<bar>positions ?s ! j - f32 t\<bar> \<le> \<bar>positions s ! j - f32 t\<bar>"
    using Suc by simp
  ultimately show ?case by simp
qed



lemma EASING_fine: "1 / 64 \<le> EASING" "EASING \<le> 7 / 256"
proof -
  have "f64 (of_int 1 / 2 ^ 6) = of_int 1 / 2 ^ 6" by (rule f64_dyadic) simp_all
  moreover have "f64 (of_int 1 / 2 ^ 6) \<le> f64 0.025" by (rule f64_mono) simp
  ultimately show "1 / 64 \<le> EASING" by (simp add: EASING_def)
  have "f64 0.025 \<le> f64 (of_int 7 / 2 ^ 8)" by (rule f64_mono) simp
  also have "\<dots> = of_int 7 / 2 ^ 8" by (rule f64_dyadic) simp_all
  finally show "EASING \<le> 7 / 256" by (simp add: EASING_def)
qed

text \<open>
  A coordinate at 1 - 2^-20 with the target 1: the step, at most 7 * 2^-28, is less than
  half the spacing 2^-24 of the binary32 values below 1, so the store rounds the sum back
  to the coordinate.
\<close>

lemma stalled_step: "eased (1 - 1 / 2 ^ 20) 1 = 1 - 1 / 2 ^ 20"
proof -
  define p :: real where "p = 1 - 1 / 2 ^ 20"
  have pd: "p = of_int 1048575 / 2 ^ 20" by (simp add: p_def)
  have p32: "f32 p = p" unfolding pd by (rule f32_dyadic) simp_all
  have p64: "f64 p = p" using p32 by (rule f64_fixed_f32)
  have "f64 (1 - p) = f64 (of_int 1 / 2 ^ 20)" by (simp add: p_def)
  also have "\<dots> = of_int 1 / 2 ^ 20" by (rule f64_dyadic) simp_all
  finally have d: "f64 (1 - p) = 1 / 2 ^ 20" by simp
  define q where "q = f64 (1 / 2 ^ 20 * EASING)"
  have q0: "0 \<le> q" unfolding q_def using EASING_fine(1) by (intro f64_nonneg) simp
  have "q \<le> f64 (of_int 7 / 2 ^ 28)"
    unfolding q_def using EASING_fine(2) by (intro f64_mono) simp
  also have "\<dots> = of_int 7 / 2 ^ 28" by (rule f64_dyadic) simp_all
  finally have q7: "q \<le> 7 / 2 ^ 28" by simp
  define v where "v = f64 (p + q)"
  have "f64 p \<le> v" unfolding v_def using q0 by (intro f64_mono) simp
  then have vlo: "p \<le> v" by (simp add: p64)
  have "v \<le> f64 (of_int 268435207 / 2 ^ 28)"
    unfolding v_def using q7 by (intro f64_mono) (simp add: p_def)
  also have "\<dots> = of_int 268435207 / 2 ^ 28" by (rule f64_dyadic) simp_all
  finally have vhi: "v \<le> 268435207 / 2 ^ 28" by simp
  have "f32 v = of_int 16777200 / 2 ^ 24"
  proof (rule f32_eval_below_one)
    show "1 / 2 \<le> \<bar>v\<bar>" using vlo by (simp add: p_def)
    show "\<bar>v\<bar> < 1" using vlo vhi by (simp add: p_def)
    show "\<bar>v * 2 ^ 24 - of_int 16777200\<bar> < 1 / 2" using vlo vhi by (simp add: p_def)
  qed
  then have "f32 v = p" by (simp add: p_def)
  then show ?thesis unfolding eased_def v_def q_def d p_def[symmetric] by (simp add: d)
qed

text \<open>
  A coordinate at 1 with the target 0: the sum is within 2^-52 of 0.975, and the nearest
  binary32 value is 16357786 / 2^24, above 0.975.
\<close>

lemma demo_step: "eased 1 0 = 16357786 / 2 ^ 24"
proof -
  have d: "f64 (0 - 1) = - 1" using f64_minus[of 1] by simp
  have E: "f64 EASING = EASING" by (simp add: EASING_def)
  have q: "f64 (- 1 * EASING) = - EASING" using f64_minus[of EASING] E by simp
  define v where "v = f64 (1 + - EASING)"
  have "\<bar>v - (1 + - EASING)\<bar> \<le> \<bar>1 + - EASING\<bar> / 2 ^ 53 + 1 / 2 ^ 200"
    unfolding v_def by (rule f64_error)
  moreover have "\<bar>1 + - EASING\<bar> \<le> 1" using EASING_bounds by simp
  then have "\<bar>1 + - EASING\<bar> / 2 ^ 53 \<le> 1 / 2 ^ 53" by (simp add: divide_right_mono)
  ultimately have e: "\<bar>v - (1 + - EASING)\<bar> \<le> 1 / 2 ^ 53 + 1 / 2 ^ 200" by linarith
  have "\<bar>v - 39 / 40\<bar> \<le> \<bar>v - (1 + - EASING)\<bar> + \<bar>EASING - 1 / 40\<bar>" by linarith
  also have "\<dots> \<le> (1 / 2 ^ 53 + 1 / 2 ^ 200) + 1 / 2 ^ 57"
    using e EASING_near by (rule add_mono)
  also have "\<dots> \<le> 1 / 2 ^ 52" by simp
  finally have near: "\<bar>v - 39 / 40\<bar> \<le> 1 / 2 ^ 52" .
  have "1 / 2 ^ 52 \<le> (1::real) / 2 ^ 30" by simp
  with near have "\<bar>v - 39 / 40\<bar> \<le> 1 / 2 ^ 30" by linarith
  then have vlo: "39 / 40 - 1 / 2 ^ 30 \<le> v" and vhi: "v \<le> 39 / 40 + 1 / 2 ^ 30" by linarith+
  have "f32 v = of_int 16357786 / 2 ^ 24"
  proof (rule f32_eval_below_one)
    show "1 / 2 \<le> \<bar>v\<bar>" using vlo by simp
    show "\<bar>v\<bar> < 1" using vlo vhi by simp
    show "\<bar>v * 2 ^ 24 - of_int 16357786\<bar> < 1 / 2" using vlo vhi by simp
  qed
  then show ?thesis unfolding eased_def d q v_def by simp
qed


lemma float32_array_replicate: "f32 x = x \<Longrightarrow> float32_array (replicate n x)"
  by (simp add: float32_array_def list_all_length)

lemma f32_small_ints: "f32 1 = 1" "f32 2 = 2"
  using f32_of_int[of 1] f32_of_int[of 2] by simp_all

lemma f32_stalled: "f32 (1 - 1 / 2 ^ 20) = 1 - 1 / 2 ^ 20"
proof -
  have "f32 (of_int 1048575 / 2 ^ 20) = of_int 1048575 / 2 ^ 20" by (rule f32_dyadic) simp_all
  then show ?thesis by simp
qed

lemma demo_engine_simps:
  "buffers_allocated demo_engine"
  "currentMode demo_engine = JString ''space''"
  "positions demo_engine ! 0 = 1"
  "spaceTargets demo_engine ! 0 = 0"
  "heartTargets demo_engine ! 0 = 2"
  by (simp_all add: demo_engine_def initial_engine_def PARTICLE_COUNT_def buffers_allocated_def
      float32_array_replicate f32_small_ints)

lemma stalled_engine_simps:
  "buffers_allocated stalled_engine"
  "currentMode stalled_engine = JString ''space''"
  "positions stalled_engine ! 0 = 1 - 1 / 2 ^ 20"
  "spaceTargets stalled_engine ! 0 = 1"
  using f32_stalled
  by (simp_all add: stalled_engine_def initial_engine_def PARTICLE_COUNT_def buffers_allocated_def
      float32_array_replicate f32_small_ints)

lemma stalled_forever:
  "positions ((animate M ^^ K) stalled_engine) ! 0 = 1 - 1 / 2 ^ 20"
proof (induction K)
  case 0
  then show ?case by (simp add: stalled_engine_simps)
next
  case (Suc K)
  let ?s = "(animate M ^^ K) stalled_engine"
  have len: "length (positions ?s) = 3 * PARTICLE_COUNT"
    using stalled_engine_simps(1) by (simp add: animate_funpow_keeps buffers_allocated_def)
  have j: "0 < 3 * PARTICLE_COUNT" by (simp add: PARTICLE_COUNT_def)
  have "tick_target M ?s 0 = 1"
    by (simp add: tick_target_def animate_funpow_keeps stalled_engine_simps)
  then show ?case using animate_coordinate[OF len j, of M] Suc stalled_step by simp
qed

text \<open>
  Claim C5 as stated fails on binary32 coordinates. In the mode 'space', with a live
  coordinate at 1 - 2^-20 and its target at 1, the tick stores the coordinate unchanged, and
  so does every later tick: the coordinate does not move by EASING times the difference
  (which is 2^-20, not 0), and its distance to the target after one tick, still 2^-20,
  exceeds the initial distance times 1 - EASING.
\<close>

theorem animate_stalls_counterexample:
  "buffers_allocated stalled_engine
 \<and> tick_target rounded_math stalled_engine 0 - positions stalled_engine ! 0 = 1 / 2 ^ 20
 \<and> (\<forall>K. positions ((animate rounded_math ^^ K) stalled_engine) ! 0 = positions stalled_engine ! 0)
 \<and> positions (animate rounded_math stalled_engine) ! 0
      \<noteq> positions stalled_engine ! 0
          + EASING * (tick_target rounded_math stalled_engine 0 - positions stalled_engine ! 0)
 \<and> \<not> \<bar>positions ((animate rounded_math ^^ 1) stalled_engine) ! 0 - tick_target rounded_math stalled_engine 0\<bar>
        \<le> \<bar>positions stalled_engine ! 0 - tick_target rounded_math stalled_engine 0\<bar> * (1 - EASING) ^ 1"
proof -
  have tt: "tick_target rounded_math stalled_engine 0 = 1"
    by (simp add: tick_target_def stalled_engine_simps)
  have stay: "positions ((animate rounded_math ^^ K) stalled_engine) ! 0 = 1 - 1 / 2 ^ 20" for K
    by (rule stalled_forever)
  have one: "positions (animate rounded_math stalled_engine) ! 0 = 1 - 1 / 2 ^ 20"
    using stay[of 1] by simp
  have E: "0 < EASING" using EASING_fine(1) by simp
  have a: "positions (animate rounded_math stalled_engine) ! 0
      \<noteq> positions stalled_engine ! 0
          + EASING * (tick_target rounded_math stalled_engine 0 - positions stalled_engine ! 0)"
    unfolding one tt stalled_engine_simps(3) using E by simp
  have b: "\<not> \<bar>positions ((animate rounded_math ^^ 1) stalled_engine) ! 0 - tick_target rounded_math stalled_engine 0\<bar>
        \<le> \<bar>positions stalled_engine ! 0 - tick_target rounded_math stalled_engine 0\<bar> * (1 - EASING) ^ 1"
    unfolding stay tt stalled_engine_simps(3) using E by simp
  show ?thesis
    using a b stay by (simp add: stalled_engine_simps tt)
qed

text \<open>
  Claim C5, amended. In one tick every live coordinate p becomes the binary32 value nearest
  to the binary64 result of p + (t - p) * EASING, where the target t is the heart target
  times the heartbeat in the mode 'heart' and the starfield target otherwise. The stored
  value differs from p + EASING * (t - p) by the roundings only, at most
  (|p| + |t|) / 2^23 + 2^-99. It lies between p and the binary32 value of t, so a tick never
  takes a coordinate past its target or away from it, also in the tick that follows a call
  of setMode; and while the target of a coordinate stays at t, as it does in the mode
  'space', its distance to (the binary32 value of) t never grows. The geometric rate
  (1 - EASING) ^ K of the ideal recurrence does not survive the rounding.
\<close>

theorem animate_eases:
  assumes alloc: "buffers_allocated s" and j: "j < 3 * PARTICLE_COUNT"
  shows "positions (animate M s) ! j = eased (positions s ! j) (tick_target M s j)
       \<and> \<bar>positions (animate M s) ! j
            - (positions s ! j + EASING * (tick_target M s j - positions s ! j))\<bar>
           \<le> (\<bar>positions s ! j\<bar> + \<bar>tick_target M s j\<bar>) / 2 ^ 23 + 1 / 2 ^ 99
       \<and> min (positions s ! j) (f32 (tick_target M s j)) \<le> positions (animate M s) ! j
       \<and> positions (animate M s) ! j \<le> max (positions s ! j) (f32 (tick_target M s j))
       \<and> min (positions s ! j) (f32 (tick_target M (setMode m s) j))
           \<le> positions (animate M (setMode m s)) ! j
       \<and> positions (animate M (setMode m s)) ! j
           \<le> max (positions s ! j) (f32 (tick_target M (setMode m s) j))
       \<and> ((\<forall>k < K. tick_target M ((animate M ^^ k) s) j = t) \<longrightarrow>
            \<bar>positions ((animate M ^^ K) s) ! j - f32 t\<bar> \<le> \<bar>positions s ! j - f32 t\<bar>)
       \<and> (currentMode s \<noteq> JString ''heart'' \<longrightarrow>
            \<bar>positions ((animate M ^^ K) s) ! j - spaceTargets s ! j\<bar>
              \<le> \<bar>positions s ! j - spaceTargets s ! j\<bar>)"
proof -
  have step: "positions (animate M s') ! j = eased (positions s' ! j) (tick_target M s' j)"
    if "buffers_allocated s'" for s'
    using that animate_coordinate[OF _ j, of s' M] by (simp add: buffers_allocated_def)
  have p32: "f32 (positions s' ! j) = positions s' ! j" if "buffers_allocated s'" for s'
    using that j by (simp add: buffers_allocated_def float32_array_nth)
  have between: "min (positions s' ! j) (f32 (tick_target M s' j)) \<le> positions (animate M s') ! j
       \<and> positions (animate M s') ! j \<le> max (positions s' ! j) (f32 (tick_target M s' j))"
    if "buffers_allocated s'" for s'
    unfolding step[OF that]
    using eased_between[OF p32[OF that] tick_target_f64[OF that j]] by simp
  have err: "\<bar>positions (animate M s) ! j
            - (positions s ! j + EASING * (tick_target M s j - positions s ! j))\<bar>
           \<le> (\<bar>positions s ! j\<bar> + \<bar>tick_target M s j\<bar>) / 2 ^ 23 + 1 / 2 ^ 99"
    unfolding step[OF alloc]
    by (rule eased_error[OF p32[OF alloc] tick_target_f64[OF alloc j]])
  have sw: "min (positions s ! j) (f32 (tick_target M (setMode m s) j))
           \<le> positions (animate M (setMode m s)) ! j
       \<and> positions (animate M (setMode m s)) ! j
           \<le> max (positions s ! j) (f32 (tick_target M (setMode m s) j))"
    using between[OF setMode_allocated[OF alloc]] by (simp add: setMode_keeps)
  have conv: "\<bar>positions ((animate M ^^ K) s) ! j - f32 t\<bar> \<le> \<bar>positions s ! j - f32 t\<bar>"
    if "\<forall>k < K. tick_target M ((animate M ^^ k) s) j = t" for t
    using animate_never_farther[OF alloc j that] .
  have space: "\<bar>positions ((animate M ^^ K) s) ! j - spaceTargets s ! j\<bar>
              \<le> \<bar>positions s ! j - spaceTargets s ! j\<bar>"
    if "currentMode s \<noteq> JString ''heart''"
  proof -
    have "\<forall>k < K. tick_target M ((animate M ^^ k) s) j = spaceTargets s ! j"
      using that by (simp add: tick_target_def animate_funpow_keeps)
    from conv[OF this] show ?thesis
      using alloc j by (simp add: buffers_allocated_def float32_array_nth)
  qed
  show ?thesis using step[OF alloc] err between[OF alloc] sw conv space by blast
qed

lemma HEARTBEAT_AMPLITUDE_bounds: "0 \<le> HEARTBEAT_AMPLITUDE" "HEARTBEAT_AMPLITUDE \<le> 1 / 16"
proof -
  show "0 \<le> HEARTBEAT_AMPLITUDE" unfolding HEARTBEAT_AMPLITUDE_def by (rule f64_nonneg) simp
  have "f64 0.05 \<le> f64 (of_int 1 / 2 ^ 4)" by (rule f64_mono) simp
  also have "\<dots> = of_int 1 / 2 ^ 4" by (rule f64_dyadic) simp_all
  finally show "HEARTBEAT_AMPLITUDE \<le> 1 / 16" by (simp add: HEARTBEAT_AMPLITUDE_def)
qed

text \<open>On the host with correctly rounded functions the heartbeat is at least 15/16.\<close>

lemma heartbeat_lower: "15 / 16 \<le> f64 (1 + f64 (HEARTBEAT_AMPLITUDE * m_sin rounded_math x))"
proof -
  have "f64 (- 1) \<le> f64 (sin x)" by (rule f64_mono) simp
  then have s: "- 1 \<le> m_sin rounded_math x" by (simp add: rounded_math_def f64_minus)
  have "HEARTBEAT_AMPLITUDE * (- 1) \<le> HEARTBEAT_AMPLITUDE * m_sin rounded_math x"
    using s HEARTBEAT_AMPLITUDE_bounds(1) by (intro mult_left_mono) simp_all
  then have "- (1 / 16) \<le> HEARTBEAT_AMPLITUDE * m_sin rounded_math x"
    using HEARTBEAT_AMPLITUDE_bounds(2) by simp
  then have "f64 (- (of_int 1 / 2 ^ 4)) \<le> f64 (HEARTBEAT_AMPLITUDE * m_sin rounded_math x)"
    by (intro f64_mono) simp
  moreover have "f64 (of_int 1 / 2 ^ 4) = of_int 1 / 2 ^ 4" by (rule f64_dyadic) simp_all
  ultimately have "- (1 / 16) \<le> f64 (HEARTBEAT_AMPLITUDE * m_sin rounded_math x)"
    by (simp add: f64_minus)
  then have "f64 (of_int 15 / 2 ^ 4) \<le> f64 (1 + f64 (HEARTBEAT_AMPLITUDE * m_sin rounded_math x))"
    by (intro f64_mono) simp
  moreover have "f64 (of_int 15 / 2 ^ 4) = of_int 15 / 2 ^ 4" by (rule f64_dyadic) simp_all
  ultimately show ?thesis by simp
qed

theorem animate_eases_witness:
  "buffers_allocated demo_engine \<and> 0 < 3 * PARTICLE_COUNT
 \<and> tick_target rounded_math demo_engine 0 = 0
 \<and> tick_target rounded_math (animate rounded_math demo_engine) 0 = 0
 \<and> currentMode demo_engine = JString ''space''
 \<and> positions (animate rounded_math demo_engine) ! 0 = 16357786 / 2 ^ 24
 \<and> 1 \<le> positions (animate rounded_math (setMode (JString ''heart'') demo_engine)) ! 0
 \<and> \<bar>positions ((animate rounded_math ^^ 2) demo_engine) ! 0\<bar> \<le> 1"
proof -
  have pos: "0 < 3 * PARTICLE_COUNT" by (simp add: PARTICLE_COUNT_def)
  have fixed: "\<forall>k < 2. tick_target rounded_math ((animate rounded_math ^^ k) demo_engine) 0 = 0"
    by (simp add: tick_target_def animate_funpow_keeps demo_engine_simps)
  have tt: "tick_target rounded_math demo_engine 0 = 0"
    by (simp add: tick_target_def demo_engine_simps)
  have tt1: "tick_target rounded_math (animate rounded_math demo_engine) 0 = 0"
    by (simp add: tick_target_def animate_keeps demo_engine_simps)
  let ?h = "tick_target rounded_math (setMode (JString ''heart'') demo_engine) 0"
  define hb where "hb = f64 (1 + f64 (HEARTBEAT_AMPLITUDE * m_sin rounded_math
      (f64 (f64 (time demo_engine + f64 0.016) * HEARTBEAT_SPEED))))"
  have hb: "15 / 16 \<le> hb" unfolding hb_def by (rule heartbeat_lower)
  have "?h = f64 (2 * hb)"
    by (simp add: tick_target_def setMode_def demo_engine_simps hb_def)
  moreover have "f64 (of_int 15 / 2 ^ 3) \<le> f64 (2 * hb)" using hb by (intro f64_mono) simp
  ultimately have "f64 (of_int 15 / 2 ^ 3) \<le> ?h" by simp
  moreover have "f64 (of_int 15 / 2 ^ 3) = of_int 15 / 2 ^ 3" by (rule f64_dyadic) simp_all
  ultimately have "f32 1 \<le> f32 ?h" by (intro f32_mono) simp
  then have h: "1 \<le> f32 ?h" by (simp add: f32_small_ints)
  from animate_eases[OF demo_engine_simps(1) pos, of rounded_math "JString ''heart''" 2 0] fixed
  have c: "positions (animate rounded_math demo_engine) ! 0
          = eased (positions demo_engine ! 0) (tick_target rounded_math demo_engine 0)"
    and s: "min (positions demo_engine ! 0) (f32 ?h)
           \<le> positions (animate rounded_math (setMode (JString ''heart'') demo_engine)) ! 0"
    and k: "\<bar>positions ((animate rounded_math ^^ 2) demo_engine) ! 0 - f32 0\<bar>
           \<le> \<bar>positions demo_engine ! 0 - f32 0\<bar>"
    by blast+
  show ?thesis
    using c s k h pos by (simp add: demo_engine_simps tt tt1 demo_step)
qed


text \<open>
  Claim C6. setMode with an argument other than the strings 'heart' and 'space' only appends
  a warning to the console and keeps the mode; with one of the two strings, getMode then
  returns it. In every case the live positions, both target arrays, the time accumulator and
  the rotation state are what they were. setMode is total: there is no error result.
\<close>

theorem setMode_field_write:
  "(m \<noteq> JString ''heart'' \<and> m \<noteq> JString ''space'' \<longrightarrow>
      setMode m s = s\<lparr>console := console s @ [Warn ''Invalid mode:'' m]\<rparr>
      \<and> getMode (setMode m s) = getMode s)
 \<and> (m = JString ''heart'' \<or> m = JString ''space'' \<longrightarrow> getMode (setMode m s) = m)
 \<and> positions (setMode m s) = positions s
 \<and> heartTargets (setMode m s) = heartTargets s
 \<and> spaceTargets (setMode m s) = spaceTargets s
 \<and> time (setMode m s) = time s
 \<and> targetRotationX (setMode m s) = targetRotationX s
 \<and> targetRotationY (setMode m s) = targetRotationY s
 \<and> currentRotationX (setMode m s) = currentRotationX s
 \<and> currentRotationY (setMode m s) = currentRotationY s
 \<and> containerRotation (setMode m s) = containerRotation s"
  by (auto simp: setMode_def getMode_def)

theorem setMode_field_write_witness:
  "setMode (JString ''galaxy'') initial_engine
     = initial_engine\<lparr>console := [Warn ''Invalid mode:'' (JString ''galaxy'')]\<rparr>
 \<and> getMode (setMode JUndefined initial_engine) = JString ''space''
 \<and> getMode (setMode (JString ''heart'') initial_engine) = JString ''heart''
 \<and> getMode (setMode (JString ''space'') (setMode (JString ''heart'') initial_engine)) = JString ''space''"
  using setMode_field_write[of "JString ''galaxy''" initial_engine]
    setMode_field_write[of JUndefined initial_engine]
    setMode_field_write[of "JString ''heart''" initial_engine]
    setMode_field_write[of "JString ''space''" "setMode (JString ''heart'') initial_engine"]
  by (simp add: initial_engine_def getMode_def)

lemma clamp_abs: "0 \<le> a \<Longrightarrow> \<bar>max (- a) (min a (x::real))\<bar> \<le> a"
  by (auto simp: max_def min_def)




section \<open>Properties of generateSpacePoints\<close>

lemma space_loop_length:
  "length (snd (space_loop M rnd radius idxs (k, pts))) = length pts"
  by (induction idxs arbitrary: k pts) (simp_all add: Let_def)

lemma space_loop_index:
  "fst (space_loop M rnd radius idxs (k, pts)) = k + 3 * length idxs"
  by (induction idxs arbitrary: k pts) (simp_all add: Let_def)

lemma point_at_update_other:
  assumes "i \<noteq> g"
  shows "point_at (pts[g * 3 := a, g * 3 + 1 := b, g * 3 + 2 := c]) i = point_at pts i"
proof -
  have "g * 3 \<noteq> i * 3" "g * 3 \<noteq> i * 3 + 1" "g * 3 \<noteq> i * 3 + 2"
    "g * 3 + 1 \<noteq> i * 3" "g * 3 + 1 \<noteq> i * 3 + 1" "g * 3 + 1 \<noteq> i * 3 + 2"
    "g * 3 + 2 \<noteq> i * 3" "g * 3 + 2 \<noteq> i * 3 + 1" "g * 3 + 2 \<noteq> i * 3 + 2"
    using assms by arith+
  then show ?thesis by (simp add: point_at_def)
qed

lemma point_at_update_same:
  assumes "g * 3 + 2 < length pts"
  shows "point_at (pts[g * 3 := a, g * 3 + 1 := b, g * 3 + 2 := c]) g = (a, b, c)"
  using assms by (simp add: point_at_def)

lemma space_loop_step:
  "space_loop M rnd radius (a # idxs) (k, pts) =
     space_loop M rnd radius idxs
       (k + 3, pts[a * 3 := fst (star_point M rnd radius k),
                   a * 3 + 1 := fst (snd (star_point M rnd radius k)),
                   a * 3 + 2 := snd (snd (star_point M rnd radius k))])"
  by (simp add: Let_def star_point_def add64_def sub64_def mul64_def)

lemma space_loop_untouched:
  "i \<notin> set idxs \<Longrightarrow> point_at (snd (space_loop M rnd radius idxs (k, pts))) i = point_at pts i"
proof (induction idxs arbitrary: k pts)
  case Nil
  then show ?case by simp
next
  case (Cons a idxs)
  then have ne: "i \<noteq> a" and rest: "i \<notin> set idxs" by auto
  show ?case
    unfolding space_loop_step Cons.IH[OF rest] by (rule point_at_update_other[OF ne])
qed

lemma space_loop_written:
  assumes "distinct idxs" "\<forall>i \<in> set idxs. i * 3 + 2 < length pts" "n < length idxs"
  shows "point_at (snd (space_loop M rnd radius idxs (k, pts))) (idxs ! n)
           = star_point M rnd radius (k + 3 * n)"
  using assms
proof (induction idxs arbitrary: k pts n)
  case Nil
  then show ?case by simp
next
  case (Cons a idxs)
  let ?pts = "pts[a * 3 := fst (star_point M rnd radius k),
                  a * 3 + 1 := fst (snd (star_point M rnd radius k)),
                  a * 3 + 2 := snd (snd (star_point M rnd radius k))]"
  show ?case
  proof (cases n)
    case 0
    have "point_at (snd (space_loop M rnd radius idxs (k + 3, ?pts))) a = point_at ?pts a"
      using Cons.prems(1) by (intro space_loop_untouched) simp
    also have "\<dots> = star_point M rnd radius k"
      using Cons.prems(2) by (subst point_at_update_same) simp_all
    finally show ?thesis using 0 unfolding space_loop_step by simp
  next
    case (Suc m)
    have "point_at (snd (space_loop M rnd radius idxs (k + 3, ?pts))) (idxs ! m)
            = star_point M rnd radius (k + 3 + 3 * m)"
      using Cons.prems Suc by (intro Cons.IH) simp_all
    then show ?thesis using Suc unfolding space_loop_step by (simp add: add.assoc)
  qed
qed

lemma generateSpacePoints_point:
  assumes "i < count"
  shows "point_at (fst (generateSpacePoints M rnd k count radius)) i
           = star_point M rnd radius (k + 3 * i)"
proof -
  have "point_at (snd (space_loop M rnd radius [0..<count] (k, replicate (count * 3) 0))) ([0..<count] ! i)
          = star_point M rnd radius (k + 3 * i)"
    using assms by (intro space_loop_written) auto
  then show ?thesis using assms
    by (cases "space_loop M rnd radius [0..<count] (k, replicate (count * 3) 0)")
       (simp add: generateSpacePoints_def)
qed

lemma generateSpacePoints_length:
  "length (fst (generateSpacePoints M rnd k count radius)) = 3 * count"
  using space_loop_length[of M rnd radius "[0..<count]" k "replicate (count * 3) 0"]
  by (cases "space_loop M rnd radius [0..<count] (k, replicate (count * 3) 0)")
     (simp add: generateSpacePoints_def)

lemma generateSpacePoints_index:
  "snd (generateSpacePoints M rnd k count radius) = k + 3 * count"
  using space_loop_index[of M rnd radius "[0..<count]" k "replicate (count * 3) 0"]
  by (cases "space_loop M rnd radius [0..<count] (k, replicate (count * 3) 0)")
     (simp add: generateSpacePoints_def)

text \<open>A flat array whose points all have binary32 coordinates is a Float32Array.\<close>

lemma float32_array_points:
  assumes len: "length pts = 3 * count"
    and pt: "\<And>i. i < count \<Longrightarrow> \<exists>a b c. point_at pts i = (f32 a, f32 b, f32 c)"
  shows "float32_array pts"
  unfolding float32_array_def list_all_length
proof (intro allI impI)
  fix j assume "j < length pts"
  then have i: "j div 3 < count" using len by auto
  from pt[OF i] obtain a b c where p: "point_at pts (j div 3) = (f32 a, f32 b, f32 c)" by blast
  consider "j = j div 3 * 3" | "j = j div 3 * 3 + 1" | "j = j div 3 * 3 + 2" by arith
  then show "f32 (pts ! j) = pts ! j"
  proof cases
    case 1
    then have "pts ! j = f32 a" using p by (simp add: point_at_def)
    then show ?thesis by simp
  next
    case 2
    then have "pts ! j = f32 b" using p by (simp add: point_at_def)
    then show ?thesis by simp
  next
    case 3
    then have "pts ! j = f32 c" using p by (simp add: point_at_def)
    then show ?thesis by simp
  qed
qed

lemma generateSpacePoints_float32:
  "float32_array (fst (generateSpacePoints M rnd k count radius))"
proof (rule float32_array_points[where count = count])
  show "length (fst (generateSpacePoints M rnd k count radius)) = 3 * count"
    by (rule generateSpacePoints_length)
next
  fix i assume "i < count"
  then show "\<exists>a b c. point_at (fst (generateSpacePoints M rnd k count radius)) i = (f32 a, f32 b, f32 c)"
    by (simp add: generateSpacePoints_point star_point_def Let_def) blast
qed



section \<open>Properties of generateHeartPoints\<close>

lemma heart_candidate_index:
  "snd (heart_candidate M rnd sc g k) = (if g < sc then k + 5 else k + 3)"
  by (simp add: heart_candidate_def surface_candidate_def interior_candidate_def Let_def)

lemma heart_iteration_cases:
  assumes "heart_iteration M rnd sc (k, g, pts) = (k2, g2, pts2)"
  obtains (rejected) "g2 = g" "pts2 = pts" "k2 = snd (heart_candidate M rnd sc g k) + 1"
      "\<not> passes_center_void rnd (fst (heart_candidate M rnd sc g k)) (snd (heart_candidate M rnd sc g k))"
    | (accepted) "g2 = g + 1"
      "passes_center_void rnd (fst (heart_candidate M rnd sc g k)) (snd (heart_candidate M rnd sc g k))"
      "pts2 = pts[g * 3 := fst (heart_scaled (fst (heart_candidate M rnd sc g k))),
                  g * 3 + 1 := fst (snd (heart_scaled (fst (heart_candidate M rnd sc g k)))),
                  g * 3 + 2 := snd (snd (heart_scaled (fst (heart_candidate M rnd sc g k))))]"
proof -
  obtain x y z k1 where c: "heart_candidate M rnd sc g k = ((x, y, z), k1)"
    by (cases "heart_candidate M rnd sc g k") auto
  show ?thesis
  proof (cases "in_center_void x z \<and> rnd k1 > f64 0.08")
    case True
    then show ?thesis
      using assms c rejected by (auto simp: heart_iteration_def passes_center_void_def)
  next
    case False
    then show ?thesis
      using assms c accepted
      by (auto simp: heart_iteration_def passes_center_void_def heart_scaled_def Let_def mul64_def)
  qed
qed

lemma accepted_candidate_cong:
  "point_at pts' i = point_at pts i \<Longrightarrow>
   accepted_candidate M rnd sc pts i \<Longrightarrow> accepted_candidate M rnd sc pts' i"
  by (simp add: accepted_candidate_def)

lemma float32_array_update:
  "float32_array xs \<Longrightarrow> float32_array (xs[i := f32 v])"
proof (cases "i < length xs")
  case True
  assume "float32_array xs"
  then show ?thesis using True
    by (auto simp: float32_array_def list_all_length nth_list_update)
next
  case False
  assume "float32_array xs"
  moreover have "xs[i := f32 v] = xs" using False by (intro list_update_beyond) simp
  ultimately show ?thesis by simp
qed

lemma heart_scaled_f32:
  "\<exists>a b c. heart_scaled p = (f32 a, f32 b, f32 c)"
  by (cases p) (auto simp: heart_scaled_def)

lemma heart_iteration_invariant:
  assumes it: "heart_iteration M rnd sc (k, g, pts) = (k2, g2, pts2)"
    and len: "length pts = 3 * count" and g: "g < count"
    and inv: "\<forall>i < g. accepted_candidate M rnd sc pts i"
    and fl: "float32_array pts"
  shows "length pts2 = 3 * count \<and> g2 \<le> count \<and> (\<forall>i < g2. accepted_candidate M rnd sc pts2 i)
       \<and> float32_array pts2"
  using it
proof (cases rule: heart_iteration_cases)
  case rejected
  then show ?thesis using len g inv fl by simp
next
  case accepted
  have "accepted_candidate M rnd sc pts2 i" if "i < g2" for i
  proof (cases "i = g")
    case True
    have "point_at pts2 g = heart_scaled (fst (heart_candidate M rnd sc g k))"
      unfolding accepted(3) using len g by (subst point_at_update_same) simp_all
    then show ?thesis
      using accepted(2) True unfolding accepted_candidate_def by blast
  next
    case False
    then have "i < g" using that accepted(1) by simp
    moreover have "point_at pts2 i = point_at pts i"
      unfolding accepted(3) using False by (rule point_at_update_other)
    ultimately show ?thesis using inv accepted_candidate_cong by blast
  qed
  moreover have "float32_array pts2"
  proof -
    obtain a b c where "heart_scaled (fst (heart_candidate M rnd sc g k)) = (f32 a, f32 b, f32 c)"
      using heart_scaled_f32 by blast
    then show ?thesis unfolding accepted(3) using fl by (simp add: float32_array_update)
  qed
  ultimately show ?thesis using accepted(1,3) len g by simp
qed

lemma heart_loop_invariant:
  assumes "heart_loop fuel M rnd count sc (k, g, pts) = Some (pts', k')"
    and "length pts = 3 * count" and "g \<le> count"
    and "\<forall>i < g. accepted_candidate M rnd sc pts i"
    and "float32_array pts"
  shows "length pts' = 3 * count \<and> (\<forall>i < count. accepted_candidate M rnd sc pts' i)
       \<and> float32_array pts'"
  using assms
proof (induction fuel arbitrary: k g pts)
  case 0
  then show ?case by (simp split: if_splits)
next
  case (Suc fuel)
  show ?case
  proof (cases "g < count")
    case False
    then show ?thesis using Suc.prems by simp
  next
    case True
    obtain k2 g2 pts2 where it: "heart_iteration M rnd sc (k, g, pts) = (k2, g2, pts2)"
      by (cases "heart_iteration M rnd sc (k, g, pts)") auto
    have "heart_loop fuel M rnd count sc (k2, g2, pts2) = Some (pts', k')"
      using Suc.prems(1) True it by simp
    moreover note heart_iteration_invariant[OF it Suc.prems(2) True Suc.prems(4) Suc.prems(5)]
    ultimately show ?thesis using Suc.IH by blast
  qed
qed

lemma generateHeartPoints_invariant:
  assumes "generateHeartPoints fuel M rnd k count = Some (pts, k')"
  shows "length pts = 3 * count"
    and "\<forall>i < count. accepted_candidate M rnd (nat \<lfloor>mul64 (real count) (f64 0.7)\<rfloor>) pts i"
    and "float32_array pts"
proof -
  have z: "float32_array (replicate (count * 3) 0)"
    by (simp add: float32_array_def list_all_length)
  have "heart_loop fuel M rnd count (nat \<lfloor>mul64 (real count) (f64 0.7)\<rfloor>)
          (k, 0, replicate (count * 3) 0) = Some (pts, k')"
    using assms by (simp add: generateHeartPoints_def Let_def)
  from heart_loop_invariant[OF this _ _ _ z]
  show "length pts = 3 * count"
    and "\<forall>i < count. accepted_candidate M rnd (nat \<lfloor>mul64 (real count) (f64 0.7)\<rfloor>) pts i"
    and "float32_array pts"
    by simp_all
qed

lemma heart_loop_done:
  "count \<le> g \<Longrightarrow> heart_loop fuel M rnd count sc (k, g, pts) = Some (pts, k)"
  by (cases fuel) simp_all

lemma heart_loop_returns:
  assumes "count \<le> fst (snd ((heart_iteration M rnd sc ^^ n) st))" and "n \<le> fuel"
  shows "heart_loop fuel M rnd count sc st \<noteq> None"
  using assms
proof (induction fuel arbitrary: n st)
  case 0
  obtain k g pts where st: "st = (k, g, pts)" by (cases st) auto
  from 0 have "count \<le> g" by (simp add: st)
  then show ?case by (simp add: st heart_loop_done)
next
  case (Suc fuel)
  obtain k g pts where st: "st = (k, g, pts)" by (cases st) auto
  show ?case
  proof (cases "g < count")
    case False
    then show ?thesis by (simp add: st)
  next
    case True
    have "n \<noteq> 0" using Suc.prems(1) True by (cases n) (simp_all add: st)
    then obtain m where n: "n = Suc m" by (cases n) auto
    have "count \<le> fst (snd ((heart_iteration M rnd sc ^^ m) (heart_iteration M rnd sc st)))"
      using Suc.prems(1) by (simp add: n funpow_swap1)
    moreover have "m \<le> fuel" using Suc.prems(2) n by simp
    ultimately have "heart_loop fuel M rnd count sc (heart_iteration M rnd sc st) \<noteq> None"
      by (rule Suc.IH)
    then show ?thesis using True by (simp add: st)
  qed
qed

text \<open>More fuel does not change the result of a run that has returned.\<close>

lemma heart_loop_more_fuel:
  assumes "heart_loop fuel M rnd count sc st = Some r" and "fuel \<le> fuel'"
  shows "heart_loop fuel' M rnd count sc st = Some r"
  using assms
proof (induction fuel arbitrary: fuel' st)
  case 0
  obtain k g pts where st: "st = (k, g, pts)" by (cases st) auto
  from 0 have "count \<le> g" "r = (pts, k)" by (auto simp: st split: if_splits)
  then show ?case by (simp add: st heart_loop_done)
next
  case (Suc fuel)
  obtain k g pts where st: "st = (k, g, pts)" by (cases st) auto
  from Suc.prems(2) obtain f where f: "fuel' = Suc f" "fuel \<le> f" by (cases fuel') auto
  show ?case
  proof (cases "g < count")
    case False
    then show ?thesis using Suc.prems(1) by (simp add: st f)
  next
    case True
    then have "heart_loop fuel M rnd count sc (heart_iteration M rnd sc (k, g, pts)) = Some r"
      using Suc.prems(1) by (simp add: st)
    from Suc.IH[OF this f(2)] show ?thesis using True by (simp add: st f)
  qed
qed

subsection \<open>Termination on fair sample sequences\<close>

text \<open>
  A pass that starts inside the first six samples of an accepting run reads its leak
  sample, if any, inside the run, and so writes its candidate.
\<close>

lemma accepting_run_pass:
  assumes run: "accepting_run rnd w" and lo: "w \<le> k" and hi: "k \<le> w + 5"
  shows "fst (snd (heart_iteration M rnd sc (k, g, pts))) = Suc g"
proof -
  obtain k2 g2 pts2 where it: "heart_iteration M rnd sc (k, g, pts) = (k2, g2, pts2)"
    by (cases "heart_iteration M rnd sc (k, g, pts)") auto
  let ?k1 = "snd (heart_candidate M rnd sc g k)"
  have "?k1 = k + 5 \<or> ?k1 = k + 3" by (simp add: heart_candidate_index)
  then have j: "?k1 = w + (?k1 - w)" "?k1 - w < 11" using lo hi by auto
  have "rnd (w + (?k1 - w)) \<le> f64 0.08"
    using run j(2) unfolding accepting_run_def by blast
  then have "rnd ?k1 \<le> f64 0.08" using j(1) by simp
  then have "passes_center_void rnd (fst (heart_candidate M rnd sc g k)) ?k1"
    by (cases "fst (heart_candidate M rnd sc g k)") (simp add: passes_center_void_def)
  with it have "g2 = g + 1" by (cases rule: heart_iteration_cases) simp_all
  then show ?thesis by (simp add: it)
qed

text \<open>
  From a pass that starts before the run, or inside its first six samples, the loop writes
  a candidate within finitely many passes: a pass that writes nothing moves on by four or
  six samples, so it cannot jump over the first six samples of the run.
\<close>

lemma accepting_run_reached:
  assumes run: "accepting_run rnd w"
  shows "k \<le> w + 5 \<Longrightarrow>
         \<exists>n k' pts'. (heart_iteration M rnd sc ^^ n) (k, g, pts) = (k', Suc g, pts')"
proof (induction "w + 5 - k" arbitrary: k rule: less_induct)
  case less
  obtain k2 g2 pts2 where it: "heart_iteration M rnd sc (k, g, pts) = (k2, g2, pts2)"
    by (cases "heart_iteration M rnd sc (k, g, pts)") auto
  from it show ?case
  proof (cases rule: heart_iteration_cases)
    case accepted
    then have "(heart_iteration M rnd sc ^^ 1) (k, g, pts) = (k2, Suc g, pts2)"
      by (simp add: it)
    then show ?thesis by blast
  next
    case rejected
    have before: "k < w"
    proof (rule ccontr)
      assume "\<not> k < w"
      then have "w \<le> k" by simp
      from accepting_run_pass[OF run this less.prems, of M sc g pts]
      show False using rejected(1) by (simp add: it)
    qed
    have k2: "k < k2" "k2 \<le> k + 6" using rejected(3) by (simp_all add: heart_candidate_index)
    then have "k2 \<le> w + 5" "w + 5 - k2 < w + 5 - k" using before by simp_all
    from less.hyps[OF this(2) this(1)] obtain n k' pts'
      where "(heart_iteration M rnd sc ^^ n) (k2, g, pts) = (k', Suc g, pts')" by blast
    then have "(heart_iteration M rnd sc ^^ Suc n) (k, g, pts) = (k', Suc g, pts')"
      using it rejected(1,2) by (simp add: funpow_swap1)
    then show ?thesis by blast
  qed
qed

lemma fair_samples_reach:
  assumes "fair_samples rnd"
  shows "\<exists>n. count \<le> fst (snd ((heart_iteration M rnd sc ^^ n) (k, g, pts)))"
proof (induction "count - g" arbitrary: k g pts)
  case 0
  then have "count \<le> fst (snd ((heart_iteration M rnd sc ^^ 0) (k, g, pts)))" by simp
  then show ?case by blast
next
  case (Suc d)
  from assms obtain w where w: "k \<le> w" "accepting_run rnd w"
    unfolding fair_samples_def by blast
  from accepting_run_reached[OF w(2), of k M sc g pts] w(1) obtain n1 k' pts'
    where n1: "(heart_iteration M rnd sc ^^ n1) (k, g, pts) = (k', Suc g, pts')" by auto
  have "d = count - Suc g" using Suc.hyps(2) by simp
  from Suc.hyps(1)[OF this] obtain n2
    where "count \<le> fst (snd ((heart_iteration M rnd sc ^^ n2) (k', Suc g, pts')))" by blast
  then have "count \<le> fst (snd ((heart_iteration M rnd sc ^^ (n2 + n1)) (k, g, pts)))"
    by (simp add: funpow_add n1)
  then show ?case by blast
qed

lemma fair_samples_return:
  assumes "fair_samples rnd"
  shows "\<exists>fuel r. generateHeartPoints fuel M rnd k count = Some r"
proof -
  from fair_samples_reach[OF assms] obtain n where
    "count \<le> fst (snd ((heart_iteration M rnd (nat \<lfloor>mul64 (real count) (f64 0.7)\<rfloor>) ^^ n)
                     (k, 0, replicate (count * 3) 0)))" by blast
  from heart_loop_returns[OF this order_refl]
  show ?thesis by (auto simp: generateHeartPoints_def Let_def)
qed



section \<open>Results on the number of points\<close>

lemma leak_threshold_lower: "1 / 16 \<le> f64 0.08"
proof -
  have "f64 (of_int 1 / 2 ^ 4) = of_int 1 / 2 ^ 4" by (rule f64_dyadic) simp_all
  moreover have "f64 (of_int 1 / 2 ^ 4) \<le> f64 0.08" by (rule f64_mono) simp
  ultimately show ?thesis by simp
qed

lemma unit_sixteenth_samples: "unit_samples sixteenth_samples"
  by (simp add: unit_samples_def sixteenth_samples_def)

lemma fair_sixteenth_samples: "fair_samples sixteenth_samples"
  unfolding fair_samples_def accepting_run_def
  using leak_threshold_lower by (auto simp: sixteenth_samples_def)

text \<open>
  Claim C4. generateSpacePoints count radius returns an array of exactly count points
  (3 * count coordinates), each of them written by the loop, for every count, radius and
  sample sequence. On every fair sample sequence the reject-and-resample loop of
  generateHeartPoints count terminates: some number of passes is enough, every larger
  allowance gives the same result, and the array returned has exactly count points, each
  slot filled with a candidate that the filter accepted. Whenever the counter generated
  reaches count within n passes, n passes are enough.
\<close>

theorem generators_return_count:
  "length (fst (generateSpacePoints M rnd k count radius)) = 3 * count
 \<and> (\<forall>i < count. point_at (fst (generateSpacePoints M rnd k count radius)) i
                    = star_point M rnd radius (k + 3 * i))
 \<and> (fair_samples rnd \<longrightarrow>
      (\<exists>fuel pts k'. generateHeartPoints fuel M rnd k count = Some (pts, k')
          \<and> (\<forall>fuel' \<ge> fuel. generateHeartPoints fuel' M rnd k count = Some (pts, k'))
          \<and> length pts = 3 * count
          \<and> (\<forall>i < count. accepted_candidate M rnd (nat \<lfloor>mul64 (real count) (f64 0.7)\<rfloor>) pts i)))
 \<and> (generateHeartPoints fuel M rnd k count = Some (pts, k') \<longrightarrow> length pts = 3 * count)
 \<and> (count \<le> heart_accepted M rnd count k n \<and> n \<le> fuel \<longrightarrow>
      generateHeartPoints fuel M rnd k count \<noteq> None)"
proof -
  have fair: "\<exists>fuel pts k'. generateHeartPoints fuel M rnd k count = Some (pts, k')
          \<and> (\<forall>fuel' \<ge> fuel. generateHeartPoints fuel' M rnd k count = Some (pts, k'))
          \<and> length pts = 3 * count
          \<and> (\<forall>i < count. accepted_candidate M rnd (nat \<lfloor>mul64 (real count) (f64 0.7)\<rfloor>) pts i)"
    if "fair_samples rnd"
  proof -
    from fair_samples_return[OF that] obtain fuel0 pts0 k0
      where r: "generateHeartPoints fuel0 M rnd k count = Some (pts0, k0)" by (metis prod.exhaust)
    have "generateHeartPoints fuel' M rnd k count = Some (pts0, k0)" if "fuel0 \<le> fuel'" for fuel'
      using r heart_loop_more_fuel[OF _ that] by (simp add: generateHeartPoints_def Let_def)
    then show ?thesis using r generateHeartPoints_invariant(1,2)[OF r] by blast
  qed
  have len: "length pts = 3 * count" if "generateHeartPoints fuel M rnd k count = Some (pts, k')"
    using that by (rule generateHeartPoints_invariant(1))
  have ret: "generateHeartPoints fuel M rnd k count \<noteq> None"
    if "count \<le> heart_accepted M rnd count k n" "n \<le> fuel"
    using that heart_loop_returns[where count = count and rnd = rnd and n = n and fuel = fuel
        and M = M and sc = "nat \<lfloor>mul64 (real count) (f64 0.7)\<rfloor>"
        and st = "(k, 0, replicate (count * 3) 0)"]
    by (simp add: generateHeartPoints_def heart_accepted_def Let_def)
  show ?thesis
    using fair len ret generateSpacePoints_length generateSpacePoints_point by blast
qed

theorem generators_return_count_witness:
  "fair_samples sixteenth_samples \<and> unit_samples sixteenth_samples
 \<and> (\<exists>fuel pts k'. generateHeartPoints fuel rounded_math sixteenth_samples 0 PARTICLE_COUNT = Some (pts, k')
        \<and> length pts = 3 * PARTICLE_COUNT
        \<and> accepted_candidate rounded_math sixteenth_samples
             (nat \<lfloor>mul64 (real PARTICLE_COUNT) (f64 0.7)\<rfloor>) pts 0
        \<and> accepted_candidate rounded_math sixteenth_samples
             (nat \<lfloor>mul64 (real PARTICLE_COUNT) (f64 0.7)\<rfloor>) pts (PARTICLE_COUNT - 1))
 \<and> length (fst (generateSpacePoints rounded_math sixteenth_samples 0 PARTICLE_COUNT SPACE_RADIUS))
      = 3 * PARTICLE_COUNT
 \<and> point_at (fst (generateSpacePoints rounded_math sixteenth_samples 0 PARTICLE_COUNT SPACE_RADIUS)) 7
      = star_point rounded_math sixteenth_samples SPACE_RADIUS 21"
proof -
  have n: "0 < PARTICLE_COUNT" "PARTICLE_COUNT - 1 < PARTICLE_COUNT" "7 < PARTICLE_COUNT"
    by (simp_all add: PARTICLE_COUNT_def)
  note t = generators_return_count[where M = rounded_math and rnd = sixteenth_samples and k = 0
      and count = PARTICLE_COUNT and radius = SPACE_RADIUS and fuel = 0 and pts = "[]" and k' = 0
      and n = 0]
  from t have len: "length (fst (generateSpacePoints rounded_math sixteenth_samples 0 PARTICLE_COUNT SPACE_RADIUS))
      = 3 * PARTICLE_COUNT" by blast
  from t n(3) have pt: "point_at (fst (generateSpacePoints rounded_math sixteenth_samples 0 PARTICLE_COUNT SPACE_RADIUS)) 7
      = star_point rounded_math sixteenth_samples SPACE_RADIUS (0 + 3 * 7)" by blast
  from t fair_sixteenth_samples obtain fuel pts k' where
    h: "generateHeartPoints fuel rounded_math sixteenth_samples 0 PARTICLE_COUNT = Some (pts, k')"
      "length pts = 3 * PARTICLE_COUNT"
      "\<forall>i < PARTICLE_COUNT. accepted_candidate rounded_math sixteenth_samples
             (nat \<lfloor>mul64 (real PARTICLE_COUNT) (f64 0.7)\<rfloor>) pts i"
    by blast
  from h(3) n have "accepted_candidate rounded_math sixteenth_samples
             (nat \<lfloor>mul64 (real PARTICLE_COUNT) (f64 0.7)\<rfloor>) pts 0"
    "accepted_candidate rounded_math sixteenth_samples
             (nat \<lfloor>mul64 (real PARTICLE_COUNT) (f64 0.7)\<rfloor>) pts (PARTICLE_COUNT - 1)"
    by blast+
  with h(1,2) have "\<exists>fuel pts k'. generateHeartPoints fuel rounded_math sixteenth_samples 0 PARTICLE_COUNT = Some (pts, k')
        \<and> length pts = 3 * PARTICLE_COUNT
        \<and> accepted_candidate rounded_math sixteenth_samples
             (nat \<lfloor>mul64 (real PARTICLE_COUNT) (f64 0.7)\<rfloor>) pts 0
        \<and> accepted_candidate rounded_math sixteenth_samples
             (nat \<lfloor>mul64 (real PARTICLE_COUNT) (f64 0.7)\<rfloor>) pts (PARTICLE_COUNT - 1)"
    by blast
  then show ?thesis
    using len pt fair_sixteenth_samples unit_sixteenth_samples by simp
qed



section \<open>The distance of a starfield point from the origin\<close>

lemma sin_lipschitz: "\<bar>sin a - sin b\<bar> \<le> \<bar>a - b\<bar>" for a b :: real
proof -
  have "\<bar>sin a - sin b\<bar> = 2 * \<bar>sin ((a - b) / 2)\<bar> * \<bar>cos ((a + b) / 2)\<bar>"
    by (simp add: sin_diff_sin abs_mult)
  also have "\<dots> \<le> 2 * \<bar>(a - b) / 2\<bar> * 1"
    by (intro mult_mono mult_left_mono abs_sin_x_le_abs_x abs_cos_le_one) simp_all
  finally show ?thesis by simp
qed

lemma cos_lipschitz: "\<bar>cos a - cos b\<bar> \<le> \<bar>a - b\<bar>" for a b :: real
proof -
  have "\<bar>cos a - cos b\<bar> = 2 * \<bar>sin ((a + b) / 2)\<bar> * \<bar>sin ((b - a) / 2)\<bar>"
    by (simp add: cos_diff_cos abs_mult)
  also have "\<dots> \<le> 2 * 1 * \<bar>(b - a) / 2\<bar>"
    by (intro mult_mono mult_left_mono abs_sin_x_le_abs_x abs_sin_le_one) simp_all
  finally show ?thesis by simp
qed

lemma root3_ge_self:
  assumes "0 \<le> u" "u \<le> 1"
  shows "u \<le> root 3 u"
proof -
  have "u * u \<le> 1" using assms by (simp add: mult_le_one)
  then have "u * u * u \<le> 1 * u" using assms(1) by (intro mult_right_mono)
  then have "u ^ 3 \<le> u" by (simp add: power3_eq_cube)
  then have "root 3 (u ^ 3) \<le> root 3 u" by simp
  then show ?thesis using assms(1) by (simp add: real_root_power_cancel)
qed

lemma unit_edge_samples: "unit_samples edge_samples"
  by (simp add: unit_samples_def edge_samples_def)

text \<open>
  The host whose functions are correctly rounded, on the three edge samples. The azimuth
  is 0, with cosine 1 and sine 0.
\<close>

lemma edge_theta:
  "f64 (f64 (edge_samples 0 * PI) * 2) = 0" "m_cos rounded_math 0 = 1" "m_sin rounded_math 0 = 0"
  by (simp_all add: edge_samples_def rounded_math_def)

text \<open>The argument of Math.acos is 659707021405 / 2^40 exactly, about 0.6.\<close>

lemma edge_acos_argument:
  "f64 (f64 (2 * edge_samples 1) - 1) = 659707021405 / 2 ^ 40"
proof -
  have "f64 (2 * edge_samples 1) = f64 (of_int 1759218649181 / 2 ^ 40)"
    by (simp add: edge_samples_def)
  also have "\<dots> = of_int 1759218649181 / 2 ^ 40" by (rule f64_dyadic) simp_all
  finally have a: "f64 (2 * edge_samples 1) = of_int 1759218649181 / 2 ^ 40" .
  have "f64 (f64 (2 * edge_samples 1) - 1) = f64 (of_int 659707021405 / 2 ^ 40)"
    unfolding a by simp
  also have "\<dots> = of_int 659707021405 / 2 ^ 40" by (rule f64_dyadic) simp_all
  finally show ?thesis by simp
qed

text \<open>The polar angle is within 2^-50 of the arc cosine.\<close>

lemma edge_phi:
  defines "w \<equiv> 659707021405 / 2 ^ 40 :: real"
  shows "\<bar>f64 (arccos w) - arccos w\<bar> \<le> 1 / 2 ^ 50"
proof -
  have w: "- 1 \<le> w" "w \<le> 1" by (simp_all add: w_def)
  have "0 \<le> arccos w" "arccos w \<le> 4"
    using arccos_lbound[OF w] arccos_ubound[OF w] pi_less_4 by simp_all
  then have "\<bar>arccos w\<bar> / 2 ^ 53 \<le> 4 / 2 ^ 53" by (simp add: divide_right_mono)
  moreover have "\<bar>f64 (arccos w) - arccos w\<bar> \<le> \<bar>arccos w\<bar> / 2 ^ 53 + 1 / 2 ^ 200"
    by (rule f64_error)
  moreover have "4 / 2 ^ 53 + 1 / 2 ^ 200 \<le> (1::real) / 2 ^ 50" by simp
  ultimately show ?thesis by linarith
qed

lemma edge_cos:
  "675539989918719 / 2 ^ 50 \<le> m_cos rounded_math (m_acos rounded_math (659707021405 / 2 ^ 40))"
proof -
  define w :: real where "w = 659707021405 / 2 ^ 40"
  have w: "- 1 \<le> w" "w \<le> 1" by (simp_all add: w_def)
  have "\<bar>cos (f64 (arccos w)) - cos (arccos w)\<bar> \<le> \<bar>f64 (arccos w) - arccos w\<bar>"
    by (rule cos_lipschitz)
  also have "\<dots> \<le> 1 / 2 ^ 50" unfolding w_def by (rule edge_phi)
  finally have "w - 1 / 2 ^ 50 \<le> cos (f64 (arccos w))" using cos_arccos[OF w] by linarith
  then have "of_int 675539989918719 / 2 ^ 50 \<le> cos (f64 (arccos w))" by (simp add: w_def)
  then have "f64 (of_int 675539989918719 / 2 ^ 50) \<le> f64 (cos (f64 (arccos w)))" by (rule f64_mono)
  moreover have "f64 (of_int 675539989918719 / 2 ^ 50) = of_int 675539989918719 / 2 ^ 50"
    by (rule f64_dyadic) simp_all
  ultimately show ?thesis by (simp add: rounded_math_def w_def)
qed

lemma edge_sin:
  "900719891113983 / 2 ^ 50 \<le> m_sin rounded_math (m_acos rounded_math (659707021405 / 2 ^ 40))"
proof -
  define w :: real where "w = 659707021405 / 2 ^ 40"
  define l :: real where "l = 439804634333 / 2 ^ 39"
  have w: "- 1 \<le> w" "w \<le> 1" by (simp_all add: w_def)
  have "l\<^sup>2 \<le> 1 - w\<^sup>2" by (simp add: l_def w_def power2_eq_square)
  then have "l \<le> sqrt (1 - w\<^sup>2)" by (rule real_le_rsqrt)
  then have l: "l \<le> sin (arccos w)" using sin_arccos[OF w] by simp
  have "\<bar>sin (f64 (arccos w)) - sin (arccos w)\<bar> \<le> \<bar>f64 (arccos w) - arccos w\<bar>"
    by (rule sin_lipschitz)
  also have "\<dots> \<le> 1 / 2 ^ 50" unfolding w_def by (rule edge_phi)
  finally have "l - 1 / 2 ^ 50 \<le> sin (f64 (arccos w))" using l by linarith
  then have "of_int 900719891113983 / 2 ^ 50 \<le> sin (f64 (arccos w))" by (simp add: l_def)
  then have "f64 (of_int 900719891113983 / 2 ^ 50) \<le> f64 (sin (f64 (arccos w)))" by (rule f64_mono)
  moreover have "f64 (of_int 900719891113983 / 2 ^ 50) = of_int 900719891113983 / 2 ^ 50"
    by (rule f64_dyadic) simp_all
  ultimately show ?thesis by (simp add: rounded_math_def w_def)
qed

text \<open>The radial coordinate is at least 15 - 15 * 2^-30.\<close>

lemma edge_radial:
  "16106127345 / 2 ^ 30 \<le> f64 (SPACE_RADIUS * m_cbrt rounded_math (edge_samples 2))"
proof -
  have "1 - 1 / 2 ^ 30 \<le> root 3 (1 - 1 / 2 ^ 30 :: real)" by (rule root3_ge_self) simp_all
  then have "of_int 1073741823 / 2 ^ 30 \<le> root 3 (1 - 1 / 2 ^ 30 :: real)" by simp
  then have "f64 (of_int 1073741823 / 2 ^ 30) \<le> f64 (root 3 (1 - 1 / 2 ^ 30))" by (rule f64_mono)
  moreover have "f64 (of_int 1073741823 / 2 ^ 30) = of_int 1073741823 / 2 ^ 30"
    by (rule f64_dyadic) simp_all
  ultimately have c: "1073741823 / 2 ^ 30 \<le> m_cbrt rounded_math (edge_samples 2)"
    by (simp add: rounded_math_def edge_samples_def)
  have "of_int 16106127345 / 2 ^ 30 \<le> SPACE_RADIUS * m_cbrt rounded_math (edge_samples 2)"
    using c by (simp add: SPACE_RADIUS_def)
  then have "f64 (of_int 16106127345 / 2 ^ 30)
      \<le> f64 (SPACE_RADIUS * m_cbrt rounded_math (edge_samples 2))" by (rule f64_mono)
  moreover have "f64 (of_int 16106127345 / 2 ^ 30) = of_int 16106127345 / 2 ^ 30"
    by (rule f64_dyadic) simp_all
  ultimately show ?thesis by simp
qed


text \<open>
  So x is at least the binary32 value of 12 - 2^-21 + 2^-30, which is 12, and z at least
  that of 9 + 2^-21 + 2^-30, which is 9 + 2^-20: both stores round upwards.
\<close>

lemma edge_point_far:
  "SPACE_RADIUS < norm3 (star_point rounded_math edge_samples SPACE_RADIUS 0)"
proof -
  define r where "r = f64 (SPACE_RADIUS * m_cbrt rounded_math (edge_samples 2))"
  define phi where "phi = m_acos rounded_math (659707021405 / 2 ^ 40)"
  define S where "S = m_sin rounded_math phi"
  define C where "C = m_cos rounded_math phi"
  define x where "x = f32 (f64 (r * S))"
  define y where "y = f32 (f64 (f64 (r * S) * 0))"
  define z where "z = f32 (f64 (r * C))"
  have pt: "star_point rounded_math edge_samples SPACE_RADIUS 0 = (x, y, z)"
    unfolding star_point_def Let_def x_def y_def z_def r_def S_def C_def phi_def
    by (simp only: add_0 edge_theta edge_acos_argument mult_1_right f64_idem)
  have r: "16106127345 / 2 ^ 30 \<le> r" unfolding r_def by (rule edge_radial)
  have S: "900719891113983 / 2 ^ 50 \<le> S" unfolding S_def phi_def by (rule edge_sin)
  have C: "675539989918719 / 2 ^ 50 \<le> C" unfolding C_def phi_def by (rule edge_cos)
  have "(16106127345 / 2 ^ 30) * (900719891113983 / 2 ^ 50) \<le> r * S"
    using r S by (intro mult_mono) simp_all
  moreover have "(of_int 12884901377 / 2 ^ 30 :: real)
      \<le> (16106127345 / 2 ^ 30) * (900719891113983 / 2 ^ 50)" by simp
  ultimately have "of_int 12884901377 / 2 ^ 30 \<le> r * S" by linarith
  then have "f64 (of_int 12884901377 / 2 ^ 30) \<le> f64 (r * S)" by (rule f64_mono)
  moreover have "f64 (of_int 12884901377 / 2 ^ 30) = of_int 12884901377 / 2 ^ 30"
    by (rule f64_dyadic) simp_all
  ultimately have "f32 (of_int 12884901377 / 2 ^ 30) \<le> x"
    unfolding x_def by (intro f32_mono) simp
  moreover have "f32 (of_int 12884901377 / 2 ^ 30) = of_int 12582912 / 2 ^ 20"
    by (rule f32_eval_8_16) simp_all
  ultimately have x: "12 \<le> x" by simp
  have "(16106127345 / 2 ^ 30) * (675539989918719 / 2 ^ 50) \<le> r * C"
    using r C by (intro mult_mono) simp_all
  moreover have "(of_int 9663676929 / 2 ^ 30 :: real)
      \<le> (16106127345 / 2 ^ 30) * (675539989918719 / 2 ^ 50)" by simp
  ultimately have "of_int 9663676929 / 2 ^ 30 \<le> r * C" by linarith
  then have "f64 (of_int 9663676929 / 2 ^ 30) \<le> f64 (r * C)" by (rule f64_mono)
  moreover have "f64 (of_int 9663676929 / 2 ^ 30) = of_int 9663676929 / 2 ^ 30"
    by (rule f64_dyadic) simp_all
  ultimately have "f32 (of_int 9663676929 / 2 ^ 30) \<le> z"
    unfolding z_def by (intro f32_mono) simp
  moreover have "f32 (of_int 9663676929 / 2 ^ 30) = of_int 9437185 / 2 ^ 20"
    by (rule f32_eval_8_16) simp_all
  ultimately have z: "9437185 / 2 ^ 20 \<le> z" by simp
  define X Y Z where "X = x * x" and "Y = y * y" and "Z = z * z"
  have "12 * 12 \<le> x * x" using x by (intro mult_mono) simp_all
  then have X: "144 \<le> X" by (simp add: X_def)
  have "(9437185 / 2 ^ 20) * (9437185 / 2 ^ 20) \<le> z * z"
    using z by (intro mult_mono) simp_all
  moreover have "(81::real) < (9437185 / 2 ^ 20) * (9437185 / 2 ^ 20)" by simp
  ultimately have Z: "81 < Z" unfolding Z_def by (rule less_le_trans[rotated])
  have Y: "0 \<le> Y" by (simp add: Y_def)
  have "225 < X + Y + Z" using X Y Z by linarith
  then have "15\<^sup>2 < x * x + y * y + z * z" by (simp add: X_def Y_def Z_def)
  then have "sqrt (15\<^sup>2) < sqrt (x * x + y * y + z * z)" by (simp only: real_sqrt_less_iff)
  then have "15 < norm3 (x, y, z)" by (simp add: norm3_def)
  then show ?thesis unfolding pt by (simp add: SPACE_RADIUS_def)
qed

text \<open>
  Claim C8 as stated fails on binary32 coordinates. With the radius 15 and the samples 0,
  about 0.8 and 1 - 2^-30 for azimuth, polar angle and radial coordinate, on a host whose
  functions are correctly rounded, the point stored has x = 12 and z = 9 + 2^-20 or more,
  so its distance from the origin exceeds 15: the stores into the Float32Array round both
  coordinates upwards.
\<close>

theorem starfield_point_outside_counterexample:
  "unit_samples edge_samples \<and> 0 \<le> SPACE_RADIUS \<and> f64 SPACE_RADIUS = SPACE_RADIUS
 \<and> 0 < PARTICLE_COUNT
 \<and> SPACE_RADIUS < norm3 (point_at (fst (generateSpacePoints rounded_math edge_samples 0
                                             PARTICLE_COUNT SPACE_RADIUS)) 0)"
proof -
  have n: "0 < PARTICLE_COUNT" by (simp add: PARTICLE_COUNT_def)
  have "f64 (of_int 15) = of_int 15" by (rule f64_of_int) simp
  then have "f64 SPACE_RADIUS = SPACE_RADIUS" by (simp add: SPACE_RADIUS_def)
  then show ?thesis
    using generateSpacePoints_point[OF n, of rounded_math edge_samples 0 SPACE_RADIUS]
      edge_point_far unit_edge_samples n
    by (simp add: SPACE_RADIUS_def)
qed

end
